theory Spec2Isabelle
  imports Complex_Main
begin

section \<open>Tensors, errors and numeric primitives\<close>

text \<open>
  The modules of \<^verbatim>\<open>modules.py\<close> work on dense tensors of floating point numbers.
  A tensor of rank n is a nested list of depth n over the reals. The tensors handed to
  the modules are rectangular and none of their dimensions is zero, which
  \<open>is_shape4\<close> and \<open>is_shape2\<close> say; a slice can be empty, and an empty list
  does not record its other extents. Every exception the code or the tensor library
  raises is a value \<open>Inl e\<close>.

  Arithmetic is that of the reals: the rounding of the floating point operations is
  not modelled. Rounding is monotone and exact on the small integers, so what is
  proved below about the range of the pixel coordinates holds with rounding as well;
  no statement depends on where between two integers a product falls.
\<close>

datatype error = ShapeMismatch | IndexOutOfRange | InvalidArgument | DivisionByZero

type_synonym tensor2 = "real list list"
type_synonym tensor3 = "real list list list"
type_synonym tensor4 = "real list list list list"

text \<open>Running a list of fallible steps in order: the first exception is the result.\<close>

fun sequence :: "(error + 'a) list \<Rightarrow> error + 'a list" where
  "sequence [] = Inr []"
| "sequence (r # rs) =
     (case r of Inl e \<Rightarrow> Inl e
      | Inr v \<Rightarrow> (case sequence rs of Inl e \<Rightarrow> Inl e | Inr vs \<Rightarrow> Inr (v # vs)))"

text \<open>\<^verbatim>\<open>.long()\<close> and \<^verbatim>\<open>int(...)\<close> truncate towards zero.\<close>

definition long :: "real \<Rightarrow> int" where
  "long v = (if 0 \<le> v then \<lfloor>v\<rfloor> else \<lceil>v\<rceil>)"

text \<open>The entries of \<^verbatim>\<open>x.shape\<close> after the first.\<close>

definition width :: "'a list list \<Rightarrow> nat" where
  "width xs = (case xs of [] \<Rightarrow> 0 | r # _ \<Rightarrow> length r)"

definition dimH :: "tensor4 \<Rightarrow> nat" where
  "dimH x = (case x of [] \<Rightarrow> 0 | img # _ \<Rightarrow> width img)"

definition dimW :: "tensor4 \<Rightarrow> nat" where
  "dimW x = (case x of [] \<Rightarrow> 0 | img # _ \<Rightarrow> (case img of [] \<Rightarrow> 0 | ch # _ \<Rightarrow> width ch))"

definition shape3 :: "tensor3 \<Rightarrow> nat \<times> nat \<times> nat" where
  "shape3 t = (length t, width t, (case t of [] \<Rightarrow> 0 | ch # _ \<Rightarrow> width ch))"

definition is_shape2 :: "tensor2 \<Rightarrow> nat \<Rightarrow> nat \<Rightarrow> bool" where
  "is_shape2 t B n = (length t = B \<and> list_all (\<lambda>row. length row = n) t)"

definition is_shape3 :: "tensor3 \<Rightarrow> nat \<Rightarrow> nat \<Rightarrow> nat \<Rightarrow> bool" where
  "is_shape3 t C H W = (length t = C \<and> list_all (\<lambda>ch. is_shape2 ch H W) t)"

definition is_shape4 :: "tensor4 \<Rightarrow> nat \<Rightarrow> nat \<Rightarrow> nat \<Rightarrow> nat \<Rightarrow> bool" where
  "is_shape4 x B C H W = (length x = B \<and> list_all (\<lambda>img. is_shape3 img C H W) x)"

text \<open>
  A slice \<^verbatim>\<open>xs[a:b]\<close>: a negative bound counts from the end, and both bounds are
  clipped to the extent of the list, so a slice never fails; it gets shorter.
\<close>

definition py_bound :: "nat \<Rightarrow> int \<Rightarrow> nat" where
  "py_bound n i = (if i < 0 then nat (max 0 (i + int n)) else min (nat i) n)"

definition py_slice :: "'a list \<Rightarrow> int \<Rightarrow> int \<Rightarrow> 'a list" where
  "py_slice xs a b =
     take (py_bound (length xs) b - py_bound (length xs) a) (drop (py_bound (length xs) a) xs)"

text \<open>
  The number of positions that \<^verbatim>\<open>xs[a:a+size]\<close> selects from a list of \<open>n\<close>
  elements, for a start \<open>a\<close> that is not negative.
\<close>

definition cut :: "nat \<Rightarrow> int \<Rightarrow> nat \<Rightarrow> nat" where
  "cut n a sz = min (nat a + sz) n - min (nat a) n"

text \<open>\<^verbatim>\<open>nn.ConstantPad2d(p, 0.)\<close>: p zeros on each side of the last two dimensions.\<close>

definition pad_channel :: "nat \<Rightarrow> nat \<Rightarrow> real list list \<Rightarrow> real list list" where
  "pad_channel p w ch =
     replicate p (replicate (w + 2 * p) 0)
     @ map (\<lambda>row. replicate p 0 @ row @ replicate p 0) ch
     @ replicate p (replicate (w + 2 * p) 0)"

definition ConstantPad2d :: "nat \<Rightarrow> tensor4 \<Rightarrow> tensor4" where
  "ConstantPad2d p x = map (map (pad_channel p (dimW x))) x"

text \<open>
  \<^verbatim>\<open>torch.cat(patch)\<close> along the batch dimension: the list must not be empty and the
  elements must agree in every other dimension.
\<close>

definition cat0 :: "tensor3 list \<Rightarrow> error + tensor4" where
  "cat0 ps =
     (case ps of [] \<Rightarrow> Inl InvalidArgument
      | p # qs \<Rightarrow> if list_all (\<lambda>q. shape3 q = shape3 p) qs then Inr ps else Inl ShapeMismatch)"

text \<open>
  \<^verbatim>\<open>torch.cat(patches, 1)\<close> along the channel dimension: the tensors must agree in
  batch size, height and width.
\<close>

definition cat1 :: "tensor4 list \<Rightarrow> error + tensor4" where
  "cat1 ps =
     (case ps of [] \<Rightarrow> Inl InvalidArgument
      | p # qs \<Rightarrow>
          if list_all (\<lambda>q. length q = length p \<and> dimH q = dimH p \<and> dimW q = dimW p) qs
          then Inr (map (\<lambda>b. concat (map (\<lambda>q. q ! b) ps)) [0..<length p])
          else Inl ShapeMismatch)"

text \<open>
  \<^verbatim>\<open>F.avg_pool2d(t, k)\<close> with the stride equal to the kernel: the mean of each k by k
  block, \<open>H div k\<close> by \<open>W div k\<close> of them. A kernel of size zero, or one larger than
  the input, is rejected.
\<close>

definition pool_channel :: "nat \<Rightarrow> real list list \<Rightarrow> real list list" where
  "pool_channel k ch =
     map (\<lambda>i. map (\<lambda>j. (\<Sum>a\<leftarrow>[0..<k]. \<Sum>b\<leftarrow>[0..<k]. ch ! (i * k + a) ! (j * k + b)) / real (k * k))
                   [0..<width ch div k])
         [0..<length ch div k]"

definition avg_pool2d :: "tensor4 \<Rightarrow> nat \<Rightarrow> error + tensor4" where
  "avg_pool2d t k =
     (if k = 0 \<or> dimH t < k \<or> dimW t < k then Inl InvalidArgument
      else Inr (map (map (pool_channel k)) t))"

text \<open>
  \<^verbatim>\<open>t.view(t.shape[0], -1)\<close>: each batch element flattened in row-major order. For a
  tensor without elements the extent \<^verbatim>\<open>-1\<close> stands for cannot be determined, and the
  call is rejected.
\<close>

definition view_flat :: "tensor4 \<Rightarrow> error + tensor2" where
  "view_flat t =
     (if concat (concat (concat t)) = [] then Inl InvalidArgument
      else Inr (map (\<lambda>img. concat (concat img)) t))"

section \<open>The retina\<close>

text \<open>
  The object of class \<^verbatim>\<open>retina\<close>. \<open>imgShape\<close> is the attribute that
  \<^verbatim>\<open>extract_patch\<close> sets at its first call and reads at every later one.
  \<open>scale\<close> is a number; the sizes it is multiplied with are integers.
\<close>

record retina =
  patch_size :: nat
  num_patches :: nat
  scale :: real
  imgShape :: "(nat \<times> nat) option"

text \<open>
  \<^verbatim>\<open>(0.5 * ((l.data + 1.0) * self.imgShape)).long()\<close>, a row at a time. \<open>imgShape\<close>
  has shape (1, 2), so a location row of width 2 is multiplied entry by entry, one of
  width 1 is broadcast, and any other width is a shape error.
\<close>

fun coords_row :: "nat \<times> nat \<Rightarrow> real list \<Rightarrow> error + int \<times> int" where
  "coords_row (sh, sw) [a, b] =
     Inr (long (0.5 * ((a + 1.0) * real sh)), long (0.5 * ((b + 1.0) * real sw)))"
| "coords_row (sh, sw) [a] =
     Inr (long (0.5 * ((a + 1.0) * real sh)), long (0.5 * ((a + 1.0) * real sw)))"
| "coords_row (sh, sw) _ = Inl ShapeMismatch"

definition coords :: "nat \<times> nat \<Rightarrow> tensor2 \<Rightarrow> error + (int \<times> int) list" where
  "coords s l = sequence (map (coords_row s) l)"

text \<open>
  \<^verbatim>\<open>x[i, :, from_y[i]:to_y[i], from_x[i]:to_x[i]]\<close> for one batch element, where
  \<open>from_x\<close> is the first and \<open>from_y\<close> the second coordinate. The slice never
  fails: where it leaves the padded image it is cut short, down to nothing.
\<close>

definition slice_at :: "nat \<Rightarrow> tensor3 \<Rightarrow> int \<times> int \<Rightarrow> tensor3" where
  "slice_at sz img c =
     (let from_x = fst c; from_y = snd c;
          to_x = from_x + int sz; to_y = from_y + int sz
      in map (\<lambda>ch. map (\<lambda>row. py_slice row from_x to_x) (py_slice ch from_y to_y)) img)"

text \<open>The loop over the batch: \<^verbatim>\<open>from_y[i]\<close> fails once \<open>i\<close> passes the last location.\<close>

definition patch_list :: "nat \<Rightarrow> tensor4 \<Rightarrow> (int \<times> int) list \<Rightarrow> error + tensor3 list" where
  "patch_list sz xp cs =
     sequence (map (\<lambda>i. if i < length cs then Inr (slice_at sz (xp ! i) (cs ! i))
                         else Inl IndexOutOfRange) [0..<length xp])"

text \<open>The locations the retina is meant for: every coordinate between -1 and 1.\<close>

definition valid_location :: "tensor2 \<Rightarrow> bool" where
  "valid_location l = list_all (list_all (\<lambda>v. - 1 \<le> v \<and> v \<le> 1)) l"

definition cached_shape :: "retina \<Rightarrow> tensor4 \<Rightarrow> nat \<times> nat" where
  "cached_shape r x = (case imgShape r of None \<Rightarrow> (dimH x, dimW x) | Some s \<Rightarrow> s)"

definition extract_patch :: "retina \<Rightarrow> tensor4 \<Rightarrow> tensor2 \<Rightarrow> nat \<Rightarrow> retina \<times> (error + tensor4)" where
  "extract_patch r x l sz =
     (r\<lparr>imgShape := Some (cached_shape r x)\<rparr>,
      case coords (cached_shape r x) l of Inl e \<Rightarrow> Inl e
      | Inr cs \<Rightarrow>
          (case patch_list sz (ConstantPad2d (sz div 2) x) cs of Inl e \<Rightarrow> Inl e
           | Inr ps \<Rightarrow> cat0 ps))"

text \<open>
  The first loop of \<^verbatim>\<open>foveate\<close>: \<open>n\<close> iterations are left and \<open>size\<close> is the
  value of the variable \<^verbatim>\<open>size\<close>; the next one is \<^verbatim>\<open>int(self.scale * size)\<close>.
  Side lengths are natural numbers, so the model follows the code for scale factors
  that are not negative; the statements about \<open>foveate\<close> assume as much.
\<close>

fun extract_loop :: "retina \<Rightarrow> tensor4 \<Rightarrow> tensor2 \<Rightarrow> nat \<Rightarrow> nat \<Rightarrow> retina \<times> (error + tensor4 list)" where
  "extract_loop r x l 0 sz = (r, Inr [])"
| "extract_loop r x l (Suc n) sz =
     (case extract_patch r x l sz of
        (r1, Inl e) \<Rightarrow> (r1, Inl e)
      | (r1, Inr p) \<Rightarrow>
          (case extract_loop r1 x l n (nat (long (scale r * real sz))) of
             (r2, Inl e) \<Rightarrow> (r2, Inl e)
           | (r2, Inr ps) \<Rightarrow> (r2, Inr (p # ps))))"

text \<open>The value of \<^verbatim>\<open>size\<close> at the start of iteration \<open>i\<close> of that loop.\<close>

fun patch_side :: "retina \<Rightarrow> nat \<Rightarrow> nat" where
  "patch_side r 0 = patch_size r"
| "patch_side r (Suc i) = nat (long (scale r * real (patch_side r i)))"

text \<open>
  The second loop: every patch but the first is pooled with the kernel
  \<^verbatim>\<open>patches[i].shape[-1] // self.patch_size\<close>.
\<close>

definition resize_one :: "nat \<Rightarrow> tensor4 \<Rightarrow> error + tensor4" where
  "resize_one ps p = (if ps = 0 then Inl DivisionByZero else avg_pool2d p (dimW p div ps))"

definition resize :: "nat \<Rightarrow> tensor4 list \<Rightarrow> error + tensor4 list" where
  "resize ps patches =
     (case patches of [] \<Rightarrow> Inr []
      | p # rest \<Rightarrow> (case sequence (map (resize_one ps) rest) of Inl e \<Rightarrow> Inl e
                      | Inr qs \<Rightarrow> Inr (p # qs)))"

definition foveate :: "retina \<Rightarrow> tensor4 \<Rightarrow> tensor2 \<Rightarrow> retina \<times> (error + tensor2)" where
  "foveate r x l =
     (case extract_loop r x l (num_patches r) (patch_size r) of
        (r1, Inl e) \<Rightarrow> (r1, Inl e)
      | (r1, Inr patches) \<Rightarrow>
          (r1, case resize (patch_size r) patches of Inl e \<Rightarrow> Inl e
               | Inr resized \<Rightarrow>
                   (case cat1 resized of Inl e \<Rightarrow> Inl e | Inr t \<Rightarrow> view_flat t)))"

section \<open>Fully connected layers and the networks built from them\<close>

text \<open>
  \<^verbatim>\<open>nn.Linear(in_features, out_features)\<close>: a weight matrix with one row per output
  and a bias. Its constructor makes them of the shapes \<open>wf_linear\<close> states; their
  values are whatever training has made them. Applied to a batch it maps every row,
  and rejects a batch whose rows are not \<open>in_features\<close> wide.
\<close>

record fc_layer =
  in_features :: nat
  out_features :: nat
  weight :: "real list list"
  bias :: "real list"

definition wf_linear :: "fc_layer \<Rightarrow> bool" where
  "wf_linear f =
     (is_shape2 (weight f) (out_features f) (in_features f) \<and> length (bias f) = out_features f)"

definition affine :: "fc_layer \<Rightarrow> real list \<Rightarrow> real list" where
  "affine f v = map2 (\<lambda>w b. (\<Sum>(a, c)\<leftarrow>zip w v. a * c) + b) (weight f) (bias f)"

definition Linear :: "fc_layer \<Rightarrow> tensor2 \<Rightarrow> error + tensor2" where
  "Linear f t =
     (if list_all (\<lambda>row. length row = in_features f) t then Inr (map (affine f) t)
      else Inl ShapeMismatch)"

definition relu :: "tensor2 \<Rightarrow> tensor2" where
  "relu t = map (map (max 0)) t"

text \<open>
  The sum of two tensors of rank 2 broadcasts: in each dimension the two extents are
  equal or one of them is 1, and the tensor of extent 1 is repeated.
\<close>

definition add_row :: "real list \<Rightarrow> real list \<Rightarrow> error + real list" where
  "add_row u v =
     (if length u = length v then Inr (map2 (+) u v)
      else if length u = 1 then Inr (map (\<lambda>b. hd u + b) v)
      else if length v = 1 then Inr (map (\<lambda>a. a + hd v) u)
      else Inl ShapeMismatch)"

definition add2 :: "tensor2 \<Rightarrow> tensor2 \<Rightarrow> error + tensor2" where
  "add2 s t =
     (if length s = length t then sequence (map2 add_row s t)
      else if length s = 1 then sequence (map (add_row (hd s)) t)
      else if length t = 1 then sequence (map (\<lambda>u. add_row u (hd t)) s)
      else Inl ShapeMismatch)"

subsection \<open>GlimpseNet\<close>

record GlimpseNet =
  retina :: retina
  fc1 :: fc_layer
  fc2 :: fc_layer
  fc3 :: fc_layer
  fc4 :: fc_layer


definition GlimpseNet_forward :: "GlimpseNet \<Rightarrow> tensor4 \<Rightarrow> tensor2 \<Rightarrow> GlimpseNet \<times> (error + tensor2)" where
  "GlimpseNet_forward net x_t l_t =
     (case foveate (retina net) x_t l_t of
        (r1, Inl e) \<Rightarrow> (net\<lparr>retina := r1\<rparr>, Inl e)
      | (r1, Inr glimpse) \<Rightarrow>
          (net\<lparr>retina := r1\<rparr>,
           case Linear (fc1 net) glimpse of Inl e \<Rightarrow> Inl e
           | Inr g1 \<Rightarrow>
           (case Linear (fc3 net) (relu g1) of Inl e \<Rightarrow> Inl e
            | Inr what \<Rightarrow>
            (case Linear (fc2 net) l_t of Inl e \<Rightarrow> Inl e
             | Inr l1 \<Rightarrow>
             (case Linear (fc4 net) (relu l1) of Inl e \<Rightarrow> Inl e
              | Inr where_t \<Rightarrow>
              (case add2 what where_t of Inl e \<Rightarrow> Inl e
               | Inr g \<Rightarrow> Inr (relu g)))))))"

subsection \<open>core\_network\<close>

record core_network =
  input_size :: nat
  hidden_size :: nat
  i2h :: fc_layer
  h2h :: fc_layer

definition core_network_init :: "nat \<Rightarrow> nat \<Rightarrow> core_network \<Rightarrow> bool" where
  "core_network_init isize hsize c =
     (input_size c = isize \<and> hidden_size c = hsize
      \<and> wf_linear (i2h c) \<and> wf_linear (h2h c)
      \<and> in_features (i2h c) = isize \<and> out_features (i2h c) = hsize
      \<and> in_features (h2h c) = hsize \<and> out_features (h2h c) = hsize)"

definition core_network_forward :: "core_network \<Rightarrow> tensor2 \<Rightarrow> tensor2 \<Rightarrow> error + tensor2" where
  "core_network_forward c g_t h_t_prev =
     (case Linear (i2h c) g_t of Inl e \<Rightarrow> Inl e
      | Inr h1 \<Rightarrow>
      (case Linear (h2h c) h_t_prev of Inl e \<Rightarrow> Inl e
       | Inr h2 \<Rightarrow>
       (case add2 h1 h2 of Inl e \<Rightarrow> Inl e | Inr h_t \<Rightarrow> Inr (relu h_t))))"

text \<open>
  \<^verbatim>\<open>init_state\<close> draws the location with \<^verbatim>\<open>uniform_(-1, 1)\<close>, which is
  \<open>from + (to - from) * u\<close> for a draw \<open>u\<close> of the generator from the unit interval.
  The draws are an argument: \<open>u i j\<close> is the one for entry \<open>(i, j)\<close>.
\<close>

definition init_state :: "core_network \<Rightarrow> nat \<Rightarrow> (nat \<Rightarrow> nat \<Rightarrow> real) \<Rightarrow> tensor2 \<times> tensor2" where
  "init_state c batch_size u =
     (replicate batch_size (replicate (hidden_size c) 0),
      map (\<lambda>i. map (\<lambda>j. - 1 + (1 - (- 1)) * u i j) [0..<2]) [0..<batch_size])"

subsection \<open>LocationNet\<close>

record LocationNet =
  std :: real
  fc :: fc_layer

text \<open>
  \<^verbatim>\<open>np.random.normal(scale=self.std, size=mu.shape)\<close> is \<open>scale * z\<close> for a standard
  normal draw \<open>z\<close> of the generator, one for each entry, and rejects a negative scale.
  The draws are an argument: \<open>z i j\<close> is the one for entry \<open>(i, j)\<close>.
\<close>

definition normal :: "real \<Rightarrow> tensor2 \<Rightarrow> (nat \<Rightarrow> nat \<Rightarrow> real) \<Rightarrow> error + tensor2" where
  "normal sc mu z =
     (if sc < 0 then Inl InvalidArgument
      else Inr (map (\<lambda>i. map (\<lambda>j. sc * z i j) [0..<length (mu ! i)]) [0..<length mu]))"

definition LocationNet_forward ::
  "LocationNet \<Rightarrow> tensor2 \<Rightarrow> (nat \<Rightarrow> nat \<Rightarrow> real) \<Rightarrow> error + tensor2 \<times> tensor2" where
  "LocationNet_forward p h_t z =
     (case Linear (fc p) h_t of Inl e \<Rightarrow> Inl e
      | Inr a \<Rightarrow>
      (case normal (std p) (map (map tanh) a) z of Inl e \<Rightarrow> Inl e
       | Inr noise \<Rightarrow>
       (case add2 (map (map tanh) a) noise of Inl e \<Rightarrow> Inl e
        | Inr l_t \<Rightarrow> Inr (map (map tanh) a, map (map tanh) l_t))))"


section \<open>Concrete networks and inputs\<close>

definition p0 :: LocationNet where
  "p0 = \<lparr>std = 0, fc = \<lparr>in_features = 1, out_features = 2, weight = [[1], [2]], bias = [0, 1]\<rparr>\<rparr>"

definition c0 :: core_network where
  "c0 = \<lparr>input_size = 1, hidden_size = 1,
          i2h = \<lparr>in_features = 1, out_features = 1, weight = [[1]], bias = [0]\<rparr>,
          h2h = \<lparr>in_features = 1, out_features = 1, weight = [[1]], bias = [0]\<rparr>\<rparr>"

definition r_int :: retina where
  "r_int = \<lparr>patch_size = 2, num_patches = 2, scale = 2, imgShape = None\<rparr>"


definition x_pixel :: tensor4 where
  "x_pixel = [[[[7]]]]"

definition x_square :: tensor4 where
  "x_square = [[[[1, 2], [3, 4]]]]"

definition l_centre :: tensor2 where
  "l_centre = [[0, 0]]"

definition x_pair :: tensor4 where
  "x_pair = [[[[1, 2], [3, 4]]], [[[5, 6], [7, 8]]]]"

definition l_pair :: tensor2 where
  "l_pair = [[0, 0], [1, - 1]]"

definition g0 :: GlimpseNet where
  "g0 = \<lparr>retina = \<lparr>patch_size = 2, num_patches = 1, scale = 2, imgShape = None\<rparr>,
          fc1 = \<lparr>in_features = 4, out_features = 1, weight = [[1, 1, 1, 1]], bias = [0]\<rparr>,
          fc2 = \<lparr>in_features = 2, out_features = 1, weight = [[1, 1]], bias = [0]\<rparr>,
          fc3 = \<lparr>in_features = 1, out_features = 2, weight = [[1], [1]], bias = [0, 0]\<rparr>,
          fc4 = \<lparr>in_features = 1, out_features = 2, weight = [[1], [2]], bias = [0, 0]\<rparr>\<rparr>"

definition l_right :: tensor2 where
  "l_right = [[1, 0]]"

definition l_two :: tensor2 where
  "l_two = [[0, 0], [1, 0]]"

definition r_one :: retina where
  "r_one = \<lparr>patch_size = 2, num_patches = 1, scale = 2, imgShape = None\<rparr>"

definition r_odd :: retina where
  "r_odd = \<lparr>patch_size = 3, num_patches = 1, scale = 2, imgShape = None\<rparr>"

definition x_tall :: tensor4 where
  "x_tall = [[[[1, 2], [3, 4], [5, 6]]]]"

definition l_corner :: tensor2 where
  "l_corner = [[1, 1]]"


definition r_stale :: retina where
  "r_stale = \<lparr>patch_size = 2, num_patches = 1, scale = 2, imgShape = Some (3, 3)\<rparr>"




section \<open>Basic facts about the primitives\<close>

lemma sequence_map_Inr:
  "(\<And>x. x \<in> set xs \<Longrightarrow> f x = Inr (g x)) \<Longrightarrow> sequence (map f xs) = Inr (map g xs)"
  by (induction xs) auto

lemma sequence_Inr_length: "sequence rs = Inr vs \<Longrightarrow> length vs = length rs"
  by (induction rs arbitrary: vs) (auto split: sum.splits)

lemma sequence_Inr_nth: "sequence rs = Inr vs \<Longrightarrow> i < length rs \<Longrightarrow> rs ! i = Inr (vs ! i)"
proof (induction rs arbitrary: vs i)
  case Nil
  then show ?case by simp
next
  case (Cons r rs)
  then show ?case by (cases i) (auto split: sum.splits)
qed

lemma is_shape2_nth: "is_shape2 t B n \<Longrightarrow> i < B \<Longrightarrow> length (t ! i) = n"
  by (simp add: is_shape2_def list_all_length)

lemma is_shape2_length: "is_shape2 t B n \<Longrightarrow> length t = B"
  by (simp add: is_shape2_def)

lemma is_shape2_iff: "is_shape2 t B n \<longleftrightarrow> length t = B \<and> (\<forall>i<B. length (t ! i) = n)"
  by (auto simp add: is_shape2_def list_all_length)

lemma add_row_same: "length u = length v \<Longrightarrow> add_row u v = Inr (map2 (+) u v)"
  by (simp add: add_row_def)

lemma add2_same_shape:
  assumes "is_shape2 s B n" "is_shape2 t B n"
  shows "add2 s t = Inr (map2 (map2 (+)) s t)"
proof -
  have len: "length s = length t" using assms by (simp add: is_shape2_def)
  have "sequence (map (\<lambda>(u, v). add_row u v) (zip s t)) = Inr (map (\<lambda>(u, v). map2 (+) u v) (zip s t))"
  proof (rule sequence_map_Inr)
    fix p assume "p \<in> set (zip s t)"
    then obtain i where i: "i < length s" "i < length t" "p = (s ! i, t ! i)"
      by (auto simp: in_set_zip)
    then have "length (s ! i) = length (t ! i)"
      using assms by (simp add: is_shape2_iff)
    with i show "(case p of (u, v) \<Rightarrow> add_row u v) = Inr (case p of (u, v) \<Rightarrow> map2 (+) u v)"
      by (simp add: add_row_same)
  qed
  with len show ?thesis by (simp add: add2_def)
qed

lemma affine_length: "wf_linear f \<Longrightarrow> length (affine f v) = out_features f"
  by (simp add: affine_def wf_linear_def is_shape2_def)

lemma Linear_ok:
  "is_shape2 t B (in_features f) \<Longrightarrow> Linear f t = Inr (map (affine f) t)"
  by (simp add: Linear_def is_shape2_def)

lemma Linear_shape:
  "wf_linear f \<Longrightarrow> Linear f t = Inr y \<Longrightarrow> is_shape2 y (length t) (out_features f)"
  by (auto simp: Linear_def is_shape2_def list_all_iff affine_length split: if_splits)


lemma map_tanh_shape: "is_shape2 t B n \<Longrightarrow> is_shape2 (map (map tanh) t) B n"
  by (simp add: is_shape2_def list_all_iff)

lemma normal_shape: "is_shape2 mu B n \<Longrightarrow> normal sc mu z = Inr noise \<Longrightarrow> is_shape2 noise B n"
  by (auto simp: normal_def is_shape2_iff split: if_splits)


section \<open>The location network\<close>

text \<open>
  Claim C5. For a hidden state of the width the layer expects and a standard deviation
  that is not negative, \<open>LocationNet_forward\<close> returns the pair of
  \<open>mu = tanh (fc h_t)\<close> and \<open>l_t = tanh (mu + noise)\<close>, where the noise of an entry is
  \<open>std\<close> times the standard normal draw for it, and every entry of both tensors lies
  between -1 and 1.
\<close>

theorem LocationNet_forward_bounded:
  assumes wf: "wf_linear (fc p)" and sd: "0 \<le> std p"
    and sh: "is_shape2 h_t B (in_features (fc p))"
  shows "\<exists>mu l_t. LocationNet_forward p h_t z = Inr (mu, l_t)
           \<and> mu = map (map tanh) (map (affine (fc p)) h_t)
           \<and> is_shape2 mu B (out_features (fc p)) \<and> is_shape2 l_t B (out_features (fc p))
           \<and> (\<forall>i<B. \<forall>j<out_features (fc p).
                 l_t ! i ! j = tanh (mu ! i ! j + std p * z i j)
                 \<and> - 1 \<le> mu ! i ! j \<and> mu ! i ! j \<le> 1
                 \<and> - 1 \<le> l_t ! i ! j \<and> l_t ! i ! j \<le> 1)"
proof -
  define a where "a = map (affine (fc p)) h_t"
  define mu where "mu = map (map tanh) a"
  define noise where "noise = map (\<lambda>i. map (\<lambda>j. std p * z i j) [0..<length (mu ! i)]) [0..<length mu]"
  define n where "n = out_features (fc p)"
  have lin: "Linear (fc p) h_t = Inr a"
    using sh by (simp add: Linear_ok a_def)
  have a_sh: "is_shape2 a B n"
    using Linear_shape [OF wf lin] sh by (simp add: is_shape2_length n_def)
  have mu_sh: "is_shape2 mu B n"
    using a_sh by (simp add: mu_def map_tanh_shape)
  have nz: "normal (std p) mu z = Inr noise"
    using sd by (simp add: normal_def noise_def)
  have noise_sh: "is_shape2 noise B n"
    using normal_shape [OF mu_sh nz] .
  have add: "add2 mu noise = Inr (map2 (map2 (+)) mu noise)"
    using add2_same_shape [OF mu_sh noise_sh] .
  define l_t where "l_t = map (map tanh) (map2 (map2 (+)) mu noise)"
  have fw: "LocationNet_forward p h_t z = Inr (mu, l_t)"
    by (simp add: LocationNet_forward_def lin nz add l_t_def flip: mu_def)
  have lenmu: "length mu = B" and lennoise: "length noise = B"
    using mu_sh noise_sh by (simp_all add: is_shape2_length)
  have l_sh: "is_shape2 l_t B n"
    using mu_sh noise_sh by (auto simp: l_t_def is_shape2_iff)
  have entry: "l_t ! i ! j = tanh (mu ! i ! j + std p * z i j)" if "i < B" "j < n" for i j
  proof -
    have "length (mu ! i) = n" "length (noise ! i) = n"
      using that mu_sh noise_sh by (simp_all add: is_shape2_iff)
    moreover have "noise ! i ! j = std p * z i j"
      using that lenmu \<open>length (mu ! i) = n\<close> by (simp add: noise_def)
    ultimately show ?thesis
      using that lenmu lennoise by (simp add: l_t_def)
  qed
  have bnd: "- 1 \<le> tanh v \<and> tanh v \<le> 1" for v :: real
    using tanh_real_gt_neg1 [of v] tanh_real_lt_1 [of v] by simp
  have mub: "- 1 \<le> mu ! i ! j \<and> mu ! i ! j \<le> 1" if "i < B" "j < n" for i j
  proof -
    have "length (a ! i) = n" "length a = B" using that a_sh by (simp_all add: is_shape2_iff)
    then show ?thesis using that bnd by (simp add: mu_def)
  qed
  show ?thesis
    using fw mu_sh l_sh entry mub bnd unfolding n_def [symmetric]
    by (intro exI [of _ mu] exI [of _ l_t]) (simp add: mu_def a_def)
qed

theorem LocationNet_forward_bounded_witness:
  "wf_linear (fc p0) \<and> 0 \<le> std p0 \<and> is_shape2 [[0]] 1 (in_features (fc p0))
   \<and> (\<exists>mu l_t. LocationNet_forward p0 [[0]] (\<lambda>i j. 1) = Inr (mu, l_t)
         \<and> is_shape2 l_t 1 2 \<and> - 1 \<le> l_t ! 0 ! 1 \<and> l_t ! 0 ! 1 \<le> 1)"
proof -
  have h1: "wf_linear (fc p0)" by (simp add: p0_def wf_linear_def is_shape2_def)
  have h2: "0 \<le> std p0" by (simp add: p0_def)
  have h3: "is_shape2 [[0]] 1 (in_features (fc p0))" by (simp add: p0_def is_shape2_def)
  have o: "out_features (fc p0) = 2" by (simp add: p0_def)
  from LocationNet_forward_bounded [OF h1 h2 h3, of "\<lambda>i j. 1"]
  obtain mu l_t where fw: "LocationNet_forward p0 [[0]] (\<lambda>i j. 1) = Inr (mu, l_t)"
    and sh: "is_shape2 l_t 1 2"
    and b: "\<forall>i<1. \<forall>j<2. l_t ! i ! j = tanh (mu ! i ! j + std p0 * 1)
                 \<and> - 1 \<le> mu ! i ! j \<and> mu ! i ! j \<le> 1
                 \<and> - 1 \<le> l_t ! i ! j \<and> l_t ! i ! j \<le> 1"
    unfolding o by blast
  have "(0::nat) < 1" "(1::nat) < 2" by simp_all
  with b have "- 1 \<le> l_t ! 0 ! 1 \<and> l_t ! 0 ! 1 \<le> 1" by blast
  with fw sh h1 h2 h3 show ?thesis by blast
qed

text \<open>
  Claim C8. With \<open>std = 0\<close> the result of \<open>LocationNet_forward\<close> does not depend
  on the random draws: two calls on the same hidden state return the same pair (or
  fail alike), whatever the generator produces.
\<close>

theorem LocationNet_std0_deterministic:
  assumes "std p = 0"
  shows "LocationNet_forward p h_t z1 = LocationNet_forward p h_t z2"
proof -
  have "normal (std p) mu z1 = normal (std p) mu z2" for mu
    using assms by (simp add: normal_def)
  then show ?thesis
    by (simp add: LocationNet_forward_def cong: sum.case_cong)
qed

theorem LocationNet_std0_deterministic_witness:
  "std p0 = 0 \<and> LocationNet_forward p0 [[0]] (\<lambda>i j. 1) = LocationNet_forward p0 [[0]] (\<lambda>i j. 2)
     \<and> LocationNet_forward p0 [[0]] (\<lambda>i j. 1) = Inr ([[0, tanh 1]], [[0, tanh (tanh 1)]])"
proof -
  have h: "std p0 = 0" by (simp add: p0_def)
  have "LocationNet_forward p0 [[0]] (\<lambda>i j. 1) = Inr ([[0, tanh 1]], [[0, tanh (tanh 1)]])"
    by (simp add: LocationNet_forward_def p0_def Linear_def affine_def normal_def add2_def add_row_def)
  then show ?thesis
    using h LocationNet_std0_deterministic [OF h, of "[[0]]" "\<lambda>i j. 1" "\<lambda>i j. 2"] by simp
qed


section \<open>The recurrent core\<close>

text \<open>
  Claim C6. For every batch size \<open>N\<close>, \<open>init_state\<close> returns a hidden state of shape
  \<open>(N, hidden_size)\<close> whose entries are all zero and a location of shape \<open>(N, 2)\<close>.
  Entry \<open>(i, j)\<close> of the location is \<open>2 * u i j - 1\<close> for its own draw \<open>u i j\<close> from
  the unit interval, and so lies between -1 and 1.
\<close>

theorem init_state_zero_and_bounded:
  assumes u: "\<And>i j. 0 \<le> u i j \<and> u i j \<le> 1"
  shows "is_shape2 (fst (init_state c N u)) N (hidden_size c)
         \<and> (\<forall>i<N. \<forall>j<hidden_size c. fst (init_state c N u) ! i ! j = 0)
         \<and> is_shape2 (snd (init_state c N u)) N 2
         \<and> (\<forall>i<N. \<forall>j<2. snd (init_state c N u) ! i ! j = 2 * u i j - 1
                \<and> - 1 \<le> snd (init_state c N u) ! i ! j
                \<and> snd (init_state c N u) ! i ! j \<le> 1)"
proof -
  have h: "is_shape2 (fst (init_state c N u)) N (hidden_size c)"
    by (simp add: init_state_def is_shape2_iff)
  have z: "\<forall>i<N. \<forall>j<hidden_size c. fst (init_state c N u) ! i ! j = 0"
    by (simp add: init_state_def)
  have l: "is_shape2 (snd (init_state c N u)) N 2"
    by (simp add: init_state_def is_shape2_iff)
  have e: "snd (init_state c N u) ! i ! j = 2 * u i j - 1" if "i < N" "j < 2" for i j
    using that by (simp add: init_state_def)
  have b: "- 1 \<le> 2 * u i j - 1 \<and> 2 * u i j - 1 \<le> 1" for i j
    using u [of i j] by simp
  from h z l e b show ?thesis by simp
qed

theorem init_state_zero_and_bounded_witness:
  "(\<forall>i j. (0::real) \<le> (if i = j then 1 else 1 / 4) \<and> (if i = j then 1 else 1 / 4) \<le> (1::real))
   \<and> init_state c0 2 (\<lambda>i j. if i = j then 1 else 1 / 4) = ([[0], [0]], [[1, - 1 / 2], [- 1 / 2, 1]])
   \<and> is_shape2 (snd (init_state c0 2 (\<lambda>i j. if i = j then 1 else 1 / 4))) 2 2
   \<and> snd (init_state c0 2 (\<lambda>i j. if i = j then 1 else 1 / 4)) ! 1 ! 0 \<le> 1"
proof -
  have h: "(0::real) \<le> (if i = j then 1 else 1 / 4) \<and> (if i = j then 1 else 1 / 4) \<le> (1::real)"
    for i j :: nat by simp
  have v: "init_state c0 2 (\<lambda>i j. if i = j then 1 else 1 / 4) = ([[0], [0]], [[1, - 1 / 2], [- 1 / 2, 1]])"
    by (simp add: init_state_def c0_def numeral_2_eq_2)
  note t = init_state_zero_and_bounded [of "\<lambda>i j. if i = j then 1 else 1 / 4" c0 2, OF h]
  from t have s: "is_shape2 (snd (init_state c0 2 (\<lambda>i j. if i = j then 1 else 1 / 4))) 2 2"
    by (elim conjE)
  from t have b: "snd (init_state c0 2 (\<lambda>i j. if i = j then 1 else 1 / 4)) ! 1 ! 0 \<le> 1"
    by simp
  from h v s b show ?thesis by simp
qed


section \<open>What a successful extraction consists of\<close>

lemma sequence_map_upt_Inr:
  assumes "sequence (map f [0..<n]) = Inr vs"
  shows "length vs = n \<and> (\<forall>i<n. f i = Inr (vs ! i))"
proof -
  have len: "length vs = n"
    using sequence_Inr_length [OF assms] by simp
  have "f i = Inr (vs ! i)" if "i < n" for i
    using sequence_Inr_nth [OF assms, of i] that by simp
  with len show ?thesis by simp
qed

lemma patch_list_Inr:
  assumes "patch_list sz xp cs = Inr ps"
  shows "length ps = length xp"
    and "i < length xp \<Longrightarrow> i < length cs \<and> ps ! i = slice_at sz (xp ! i) (cs ! i)"
proof -
  note s = sequence_map_upt_Inr [OF assms [unfolded patch_list_def]]
  from s show "length ps = length xp" by simp
  assume "i < length xp"
  with s have "(if i < length cs then Inr (slice_at sz (xp ! i) (cs ! i))
                else Inl IndexOutOfRange) = Inr (ps ! i)"
    by simp
  then show "i < length cs \<and> ps ! i = slice_at sz (xp ! i) (cs ! i)"
    by (auto split: if_splits)
qed

lemma cat0_Inr:
  assumes "cat0 ps = Inr p"
  shows "p = ps" and "ps \<noteq> []" and "i < length ps \<Longrightarrow> shape3 (ps ! i) = shape3 (ps ! 0)"
proof -
  from assms show "p = ps" "ps \<noteq> []"
    by (auto simp: cat0_def split: list.splits if_splits)
  assume "i < length ps"
  with assms show "shape3 (ps ! i) = shape3 (ps ! 0)"
    by (cases i) (auto simp: cat0_def list_all_length split: list.splits if_splits)
qed

lemma coords_Inr:
  assumes "coords s l = Inr cs"
  shows "length cs = length l" and "i < length l \<Longrightarrow> coords_row s (l ! i) = Inr (cs ! i)"
proof -
  from assms have s: "sequence (map (coords_row s) l) = Inr cs" by (simp add: coords_def)
  from sequence_Inr_length [OF s] show "length cs = length l" by simp
  assume "i < length l"
  with sequence_Inr_nth [OF s, of i] show "coords_row s (l ! i) = Inr (cs ! i)" by simp
qed

lemma extract_patch_fst: "fst (extract_patch r x l sz) = r\<lparr>imgShape := Some (cached_shape r x)\<rparr>"
  by (simp add: extract_patch_def)

lemma extract_patch_Inr:
  assumes "snd (extract_patch r x l sz) = Inr p"
  shows "length p = length x" and "x \<noteq> []"
    and "i < length x \<Longrightarrow> i < length l
          \<and> (\<exists>c. coords_row (cached_shape r x) (l ! i) = Inr c
                 \<and> p ! i = slice_at sz (map (pad_channel (sz div 2) (dimW x)) (x ! i)) c)"
    and "i < length x \<Longrightarrow> shape3 (p ! i) = shape3 (p ! 0)"
proof -
  from assms obtain cs ps where cs: "coords (cached_shape r x) l = Inr cs"
    and ps: "patch_list sz (ConstantPad2d (sz div 2) x) cs = Inr ps"
    and cat: "cat0 ps = Inr p"
    by (auto simp: extract_patch_def split: sum.splits)
  have pp: "p = ps" using cat0_Inr(1) [OF cat] .
  have lp: "length ps = length x" using patch_list_Inr(1) [OF ps] by (simp add: ConstantPad2d_def)
  show "length p = length x" using pp lp by simp
  show "x \<noteq> []" using cat0_Inr(2) [OF cat] lp by auto
  { assume i: "i < length x"
    then have i': "i < length (ConstantPad2d (sz div 2) x)" by (simp add: ConstantPad2d_def)
    from patch_list_Inr(2) [OF ps i'] have ic: "i < length cs"
      and sl: "ps ! i = slice_at sz (ConstantPad2d (sz div 2) x ! i) (cs ! i)" by simp_all
    have il: "i < length l" using ic coords_Inr(1) [OF cs] by simp
    have "coords_row (cached_shape r x) (l ! i) = Inr (cs ! i)"
      using coords_Inr(2) [OF cs il] .
    moreover have "ConstantPad2d (sz div 2) x ! i = map (pad_channel (sz div 2) (dimW x)) (x ! i)"
      using i by (simp add: ConstantPad2d_def)
    ultimately show "i < length l
          \<and> (\<exists>c. coords_row (cached_shape r x) (l ! i) = Inr c
                 \<and> p ! i = slice_at sz (map (pad_channel (sz div 2) (dimW x)) (x ! i)) c)"
      using il sl pp by auto
    show "shape3 (p ! i) = shape3 (p ! 0)"
      using cat0_Inr(3) [OF cat, of i] i lp pp by simp }
qed

lemma cached_shape_update [simp]:
  "cached_shape (r\<lparr>imgShape := Some (cached_shape r x)\<rparr>) x' = cached_shape r x"
  by (simp add: cached_shape_def)

lemma extract_patch_cached:
  "snd (extract_patch (r\<lparr>imgShape := Some (cached_shape r x)\<rparr>) x l sz) = snd (extract_patch r x l sz)"
  by (simp add: extract_patch_def)

lemma extract_loop_Inr:
  assumes "snd (extract_loop r x l n sz) = Inr ps"
  shows "length ps = n
         \<and> (\<forall>j<n. snd (extract_patch r x l (((\<lambda>s. nat (long (scale r * real s))) ^^ j) sz))
                     = Inr (ps ! j))"
  using assms
proof (induction n arbitrary: r sz ps)
  case 0
  then show ?case by simp
next
  case (Suc n)
  define r1 where "r1 = r\<lparr>imgShape := Some (cached_shape r x)\<rparr>"
  define f where "f = (\<lambda>s. nat (long (scale r * real s)))"
  have r1: "fst (extract_patch r x l sz) = r1"
    by (simp add: extract_patch_fst r1_def)
  have sc: "scale r1 = scale r" by (simp add: r1_def)
  from Suc.prems r1 obtain p qs where p: "snd (extract_patch r x l sz) = Inr p"
    and qs: "snd (extract_loop r1 x l n (f sz)) = Inr qs" and ps: "ps = p # qs"
    by (auto simp: f_def split: prod.splits sum.splits)
  from Suc.IH [OF qs] have len: "length qs = n"
    and nth: "\<And>j. j < n \<Longrightarrow> snd (extract_patch r1 x l ((f ^^ j) (f sz))) = Inr (qs ! j)"
    by (simp_all add: sc f_def)
  have "snd (extract_patch r x l ((f ^^ j) sz)) = Inr (ps ! j)" if "j < Suc n" for j
  proof (cases j)
    case 0
    then show ?thesis using p ps by simp
  next
    case (Suc j')
    then have "j' < n" using that by simp
    from nth [OF this] have "snd (extract_patch r x l ((f ^^ j') (f sz))) = Inr (qs ! j')"
      by (simp add: r1_def extract_patch_cached)
    then show ?thesis using Suc ps by (simp add: funpow_swap1)
  qed
  then show ?case using len ps by (simp add: f_def)
qed

lemma nat_long_mult: "nat (long (real k * real s)) = k * s"
proof -
  have "real k * real s = real (k * s)" by simp
  then have "long (real k * real s) = int (k * s)"
    unfolding long_def by (metis floor_of_nat of_nat_0_le_iff)
  then show ?thesis by (metis nat_int)
qed

lemma size_iter_nat: "((\<lambda>s. nat (long (real k * real s))) ^^ j) sz = sz * k ^ j"
  by (induction j) (simp_all add: nat_long_mult del: of_nat_mult)

lemma resize_one_Inr:
  "resize_one psz p = Inr q \<Longrightarrow> q = map (map (pool_channel (dimW p div psz))) p"
  by (auto simp: resize_one_def avg_pool2d_def split: if_splits)

lemma resize_Inr:
  assumes "resize psz patches = Inr rs"
  shows "length rs = length patches"
    and "patches \<noteq> [] \<Longrightarrow> rs ! 0 = patches ! 0"
    and "0 < k \<Longrightarrow> k < length patches \<Longrightarrow> resize_one psz (patches ! k) = Inr (rs ! k)"
proof -
  show "length rs = length patches"
    using assms sequence_Inr_length
    by (fastforce simp: resize_def split: list.splits sum.splits)
  show "patches \<noteq> [] \<Longrightarrow> rs ! 0 = patches ! 0"
    using assms by (auto simp: resize_def split: list.splits sum.splits)
  assume k: "0 < k" "k < length patches"
  then obtain p rest where pr: "patches = p # rest" by (cases patches) auto
  with assms obtain qs where qs: "sequence (map (resize_one psz) rest) = Inr qs" and rs: "rs = p # qs"
    by (auto simp: resize_def split: sum.splits)
  from k pr have "k - 1 < length (map (resize_one psz) rest)" by simp
  from sequence_Inr_nth [OF qs this] k pr rs
  show "resize_one psz (patches ! k) = Inr (rs ! k)"
    by (cases k) simp_all
qed

lemma cat1_Inr:
  assumes "cat1 rs = Inr t"
  shows "rs \<noteq> []" and "length t = length (rs ! 0)"
    and "k < length rs \<Longrightarrow> length (rs ! k) = length (rs ! 0)"
    and "b < length (rs ! 0) \<Longrightarrow> t ! b = concat (map (\<lambda>q. q ! b) rs)"
proof -
  from assms obtain p qs where pq: "rs = p # qs"
    and al: "list_all (\<lambda>q. length q = length p \<and> dimH q = dimH p \<and> dimW q = dimW p) qs"
    and t: "t = map (\<lambda>b. concat (map (\<lambda>q. q ! b) rs)) [0..<length p]"
    by (auto simp: cat1_def split: list.splits if_splits)
  show "rs \<noteq> []" using pq by simp
  show "length t = length (rs ! 0)" using t pq by simp
  show "k < length rs \<Longrightarrow> length (rs ! k) = length (rs ! 0)"
    using pq al by (cases k) (auto simp: list_all_length)
  show "b < length (rs ! 0) \<Longrightarrow> t ! b = concat (map (\<lambda>q. q ! b) rs)"
    using t pq by simp
qed

lemma foveate_Inr:
  assumes "snd (foveate r x l) = Inr out"
  obtains ps rs t where "snd (extract_loop r x l (num_patches r) (patch_size r)) = Inr ps"
    and "resize (patch_size r) ps = Inr rs" and "cat1 rs = Inr t" and "view_flat t = Inr out"
  using assms by (auto simp: foveate_def split: prod.splits sum.splits)

lemma dimW_shape3: "p \<noteq> [] \<Longrightarrow> dimW p = snd (snd (shape3 (p ! 0)))"
  by (cases p) (simp_all add: dimW_def shape3_def)

lemma dimH_shape3: "p \<noteq> [] \<Longrightarrow> dimH p = fst (snd (shape3 (p ! 0)))"
  by (cases p) (simp_all add: dimH_def shape3_def)

text \<open>The stages of a successful run, for one row of the batch.\<close>

lemma foveate_stages:
  assumes "snd (foveate r x l) = Inr out"
  obtains ps rs where "snd (extract_loop r x l (num_patches r) (patch_size r)) = Inr ps"
    and "length ps = num_patches r" and "length rs = num_patches r" and "0 < num_patches r"
    and "\<And>k. k < num_patches r \<Longrightarrow> length (ps ! k) = length x"
    and "\<And>k. k < num_patches r \<Longrightarrow> length (rs ! k) = length x"
    and "rs ! 0 = ps ! 0"
    and "\<And>k. 0 < k \<Longrightarrow> k < num_patches r \<Longrightarrow>
            rs ! k = map (map (pool_channel (dimW (ps ! k) div patch_size r))) (ps ! k)"
    and "length out = length x"
    and "\<And>i. i < length x \<Longrightarrow> out ! i = concat (concat (concat (map (\<lambda>q. q ! i) rs)))"
proof -
  from assms obtain ps rs t where ps: "snd (extract_loop r x l (num_patches r) (patch_size r)) = Inr ps"
    and rs: "resize (patch_size r) ps = Inr rs" and t: "cat1 rs = Inr t"
    and vf: "view_flat t = Inr out"
    by (rule foveate_Inr)
  note el = extract_loop_Inr [OF ps]
  have lps: "length ps = num_patches r" using el by simp
  have lrs: "length rs = num_patches r" using resize_Inr(1) [OF rs] lps by simp
  have pos: "0 < num_patches r" using cat1_Inr(1) [OF t] lrs by (cases rs) auto
  have psk: "length (ps ! k) = length x" if "k < num_patches r" for k
    using el that extract_patch_Inr(1) by blast
  have "ps \<noteq> []" using lps pos by (cases ps) auto
  then have rs0: "rs ! 0 = ps ! 0" by (rule resize_Inr(2) [OF rs])
  have rsk: "rs ! k = map (map (pool_channel (dimW (ps ! k) div patch_size r))) (ps ! k)"
    if "0 < k" "k < num_patches r" for k
    using resize_Inr(3) [OF rs, of k] that lps resize_one_Inr by auto
  have lrsk: "length (rs ! k) = length x" if "k < num_patches r" for k
  proof (cases k)
    case 0
    then show ?thesis using rs0 psk [OF pos] by simp
  next
    case (Suc k')
    then show ?thesis using rsk [of k] psk [of k] that by simp
  qed
  have lt: "length t = length x" using cat1_Inr(2) [OF t] lrsk [OF pos] by simp
  have out: "out = map (\<lambda>img. concat (concat img)) t"
    using vf by (simp add: view_flat_def split: if_splits)
  have lout: "length out = length x" using out lt by simp
  have row: "out ! i = concat (concat (concat (map (\<lambda>q. q ! i) rs)))" if "i < length x" for i
    using that out lt cat1_Inr(4) [OF t, of i] lrsk [OF pos] by simp
  show thesis
    using that [OF ps lps lrs pos psk lrsk rs0 rsk lout row] .
qed

lemma foveate_length: "snd (foveate r x l) = Inr out \<Longrightarrow> length out = length x"
  by (erule foveate_stages)

lemma is_shape3_shape3: "is_shape3 t C H W \<Longrightarrow> 0 < C \<Longrightarrow> 0 < H \<Longrightarrow> shape3 t = (C, H, W)"
  by (cases t; cases "hd t")
     (auto simp: is_shape3_def is_shape2_def shape3_def width_def split: list.splits)

lemma is_shape4_nth: "is_shape4 x B C H W \<Longrightarrow> i < B \<Longrightarrow> is_shape3 (x ! i) C H W"
  by (simp add: is_shape4_def list_all_length)

lemma is_shape4_length: "is_shape4 x B C H W \<Longrightarrow> length x = B"
  by (simp add: is_shape4_def)

lemma is_shape4_dims:
  assumes "is_shape4 x B C H W" "0 < B" "0 < C" "0 < H"
  shows "dimH x = H" and "dimW x = W"
proof -
  have ne: "x \<noteq> []" using assms by (auto simp: is_shape4_def)
  have "shape3 (x ! 0) = (C, H, W)"
    using is_shape3_shape3 [OF is_shape4_nth [OF assms(1,2)] assms(3,4)] .
  then show "dimH x = H" "dimW x = W"
    using dimH_shape3 [OF ne] dimW_shape3 [OF ne] by simp_all
qed

lemma is_shape4_update:
  "is_shape4 x B C H W \<Longrightarrow> is_shape3 img C H W \<Longrightarrow> is_shape4 (x[j := img]) B C H W"
  by (cases "j < length x") (auto simp: is_shape4_def list_all_length nth_list_update)

text \<open>Row \<open>i\<close> of the patch of one size is made from row \<open>i\<close> of the inputs alone.\<close>

lemma extract_patch_row_local:
  assumes p: "snd (extract_patch r x l sz) = Inr p"
    and p': "snd (extract_patch r x' l' sz) = Inr p'"
    and sh: "dimH x' = dimH x" "dimW x' = dimW x"
    and i: "i < length x" "i < length x'"
    and eq: "x ! i = x' ! i" "l ! i = l' ! i"
  shows "p ! i = p' ! i" and "dimW p = dimW p'"
proof -
  have cs: "cached_shape r x' = cached_shape r x"
    using sh by (simp add: cached_shape_def split: option.splits)
  from extract_patch_Inr(3) [OF p i(1)] obtain c
    where c: "coords_row (cached_shape r x) (l ! i) = Inr c"
      and s: "p ! i = slice_at sz (map (pad_channel (sz div 2) (dimW x)) (x ! i)) c"
    by blast
  from extract_patch_Inr(3) [OF p' i(2)] obtain c'
    where c': "coords_row (cached_shape r x') (l' ! i) = Inr c'"
      and s': "p' ! i = slice_at sz (map (pad_channel (sz div 2) (dimW x')) (x' ! i)) c'"
    by blast
  from c c' cs eq have "c' = c" by simp
  with s s' sh eq show row: "p ! i = p' ! i" by simp
  have ne: "p \<noteq> []" "p' \<noteq> []"
    using extract_patch_Inr(1) [OF p] extract_patch_Inr(1) [OF p'] i by auto
  have "shape3 (p ! 0) = shape3 (p ! i)" "shape3 (p' ! 0) = shape3 (p' ! i)"
    using extract_patch_Inr(4) [OF p i(1)] extract_patch_Inr(4) [OF p' i(2)] by simp_all
  then show "dimW p = dimW p'"
    using dimW_shape3 [OF ne(1)] dimW_shape3 [OF ne(2)] row by simp
qed

lemma foveate_row_local:
  assumes out: "snd (foveate r x l) = Inr out"
    and out': "snd (foveate r x' l') = Inr out'"
    and sh: "dimH x' = dimH x" "dimW x' = dimW x" "length x' = length x"
    and i: "i < length x"
    and eq: "x ! i = x' ! i" "l ! i = l' ! i"
  shows "out ! i = out' ! i"
proof -
  define n where "n = num_patches r"
  define f where "f = (\<lambda>s. nat (long (scale r * real s)))"
  have i': "i < length x'" using i sh by simp
  from out obtain ps rs where
    ps: "snd (extract_loop r x l n (patch_size r)) = Inr ps"
    and pos: "0 < n"
    and lrs: "length rs = n"
    and lps: "\<And>k. k < n \<Longrightarrow> length (ps ! k) = length x"
    and rs0: "rs ! 0 = ps ! 0"
    and rsk: "\<And>k. 0 < k \<Longrightarrow> k < n \<Longrightarrow>
            rs ! k = map (map (pool_channel (dimW (ps ! k) div patch_size r))) (ps ! k)"
    and row: "out ! i = concat (concat (concat (map (\<lambda>q. q ! i) rs)))"
    unfolding n_def using i by (elim foveate_stages) blast
  from out' obtain ps' rs' where
    ps': "snd (extract_loop r x' l' n (patch_size r)) = Inr ps'"
    and lrs': "length rs' = n"
    and lps': "\<And>k. k < n \<Longrightarrow> length (ps' ! k) = length x'"
    and rs0': "rs' ! 0 = ps' ! 0"
    and rsk': "\<And>k. 0 < k \<Longrightarrow> k < n \<Longrightarrow>
            rs' ! k = map (map (pool_channel (dimW (ps' ! k) div patch_size r))) (ps' ! k)"
    and row': "out' ! i = concat (concat (concat (map (\<lambda>q. q ! i) rs')))"
    unfolding n_def using i' by (elim foveate_stages) blast
  have patch: "ps ! k ! i = ps' ! k ! i \<and> dimW (ps ! k) = dimW (ps' ! k)" if "k < n" for k
  proof -
    have a: "snd (extract_patch r x l ((f ^^ k) (patch_size r))) = Inr (ps ! k)"
      using extract_loop_Inr [OF ps] that by (simp add: f_def)
    have b: "snd (extract_patch r x' l' ((f ^^ k) (patch_size r))) = Inr (ps' ! k)"
      using extract_loop_Inr [OF ps'] that by (simp add: f_def)
    show ?thesis
      using extract_patch_row_local [OF a b sh(1,2) i i' eq] by simp
  qed
  have "rs ! k ! i = rs' ! k ! i" if "k < n" for k
  proof (cases k)
    case 0
    then show ?thesis using rs0 rs0' patch [OF that] by simp
  next
    case (Suc k')
    then have k: "0 < k" by simp
    have "i < length (ps ! k)" "i < length (ps' ! k)"
      using lps [OF that] lps' [OF that] i i' by simp_all
    then show ?thesis
      using rsk [OF k that] rsk' [OF k that] patch [OF that] by simp
  qed
  then have "map (\<lambda>q. q ! i) rs = map (\<lambda>q. q ! i) rs'"
    using lrs lrs' by (auto simp: list_eq_iff_nth_eq)
  with row row' show ?thesis by simp
qed


section \<open>What a successful call of a network consists of\<close>

lemma Linear_length: "Linear f t = Inr y \<Longrightarrow> length y = length t"
  by (auto simp: Linear_def split: if_splits)

lemma relu_length [simp]: "length (relu t) = length t"
  by (simp add: relu_def)


lemma add2_Inr_lengths:
  "add2 s t = Inr u \<Longrightarrow> length s = length t \<or> length s = 1 \<or> length t = 1"
  by (auto simp: add2_def split: if_splits)

lemma foveate_nonempty:
  assumes "snd (foveate r x l) = Inr out"
  shows "x \<noteq> []" and "length x \<le> length l"
proof -
  from assms obtain ps where ps: "snd (extract_loop r x l (num_patches r) (patch_size r)) = Inr ps"
    and pos: "0 < num_patches r"
    by (elim foveate_stages) blast
  from extract_loop_Inr [OF ps] pos obtain sz where p: "snd (extract_patch r x l sz) = Inr (ps ! 0)"
    by blast
  show "x \<noteq> []" using extract_patch_Inr(2) [OF p] .
  show "length x \<le> length l"
  proof (rule ccontr)
    assume "\<not> length x \<le> length l"
    then have "length l < length x" by simp
    from extract_patch_Inr(3) [OF p this] show False by simp
  qed
qed

lemma GlimpseNet_forward_Inr:
  assumes "snd (GlimpseNet_forward net x_t l_t) = Inr g"
  obtains glimpse g1 what l1 where_t s where
    "snd (foveate (retina net) x_t l_t) = Inr glimpse"
    and "Linear (fc1 net) glimpse = Inr g1" and "Linear (fc3 net) (relu g1) = Inr what"
    and "Linear (fc2 net) l_t = Inr l1" and "Linear (fc4 net) (relu l1) = Inr where_t"
    and "add2 what where_t = Inr s" and "g = relu s"
  using assms by (auto simp: GlimpseNet_forward_def split: prod.splits sum.splits)

lemma GlimpseNet_forward_batches:
  assumes "snd (GlimpseNet_forward net x_t l_t) = Inr g"
  shows "length x_t = length l_t \<or> length x_t = 1"
proof -
  from assms obtain glimpse g1 what l1 where_t s where
    fv: "snd (foveate (retina net) x_t l_t) = Inr glimpse"
    and a: "Linear (fc1 net) glimpse = Inr g1" and b: "Linear (fc3 net) (relu g1) = Inr what"
    and c: "Linear (fc2 net) l_t = Inr l1" and d: "Linear (fc4 net) (relu l1) = Inr where_t"
    and e: "add2 what where_t = Inr s"
    by (rule GlimpseNet_forward_Inr)
  have lw: "length what = length x_t"
    using Linear_length [OF a] Linear_length [OF b] foveate_length [OF fv] by simp
  have lh: "length where_t = length l_t"
    using Linear_length [OF c] Linear_length [OF d] by simp
  have ne: "x_t \<noteq> []" and le: "length x_t \<le> length l_t"
    using foveate_nonempty [OF fv] by simp_all
  from add2_Inr_lengths [OF e] lw lh
  have "length x_t = length l_t \<or> length x_t = 1 \<or> length l_t = 1" by simp
  moreover have "length x_t = 1" if "length l_t = 1"
    using that ne le by (cases x_t) auto
  ultimately show ?thesis by blast
qed

lemma core_network_forward_Inr:
  assumes "core_network_forward c g_t h_t_prev = Inr h_t"
  obtains h1 h2 s where "Linear (i2h c) g_t = Inr h1" and "Linear (h2h c) h_t_prev = Inr h2"
    and "add2 h1 h2 = Inr s" and "h_t = relu s"
  using assms by (auto simp: core_network_forward_def split: sum.splits)



section \<open>Rows of the batch do not interact\<close>

text \<open>
  Claim C10. Replace row \<open>j\<close> of the image batch by another image of the same shape
  and row \<open>j\<close> of the location batch by another location. Whenever \<open>foveate\<close>
  returns a glimpse for both inputs, row \<open>i\<close> of the two glimpses is the same for
  every \<open>i\<close> other than \<open>j\<close>.
\<close>

theorem foveate_row_independent:
  assumes "is_shape4 x B C H W" and "is_shape3 img C H W" and "0 < C" and "0 < H"
    and "i < B" and "j < B" and "j \<noteq> i"
    and "snd (foveate r x l) = Inr out"
    and "snd (foveate r (x[j := img]) (l[j := loc])) = Inr out'"
    and "0 \<le> scale r"
  shows "out ! i = out' ! i"
proof -
  have B: "0 < B" using assms(5) by simp
  have x': "is_shape4 (x[j := img]) B C H W"
    using is_shape4_update [OF assms(1,2)] .
  have d: "dimH (x[j := img]) = dimH x" "dimW (x[j := img]) = dimW x"
    using is_shape4_dims [OF assms(1) B assms(3,4)] is_shape4_dims [OF x' B assms(3,4)]
    by simp_all
  have len: "length (x[j := img]) = length x" by simp
  have i: "i < length x" using assms(1,5) by (simp add: is_shape4_length)
  have e: "x ! i = x[j := img] ! i" "l ! i = l[j := loc] ! i"
    using assms(7) by simp_all
  show ?thesis
    using foveate_row_local [OF assms(8,9) d len i e] .
qed

theorem foveate_row_independent_witness:
  "is_shape4 x_pair 2 1 2 2 \<and> is_shape3 [[[9, 9], [9, 9]]] 1 2 2
   \<and> 0 \<le> scale r_int
   \<and> snd (foveate r_int x_pair l_pair)
       = Inr [[1, 2, 3, 4, 1 / 4, 1 / 2, 3 / 4, 1], [0, 0, 6, 0, 0, 0, 13 / 2, 0]]
   \<and> snd (foveate r_int (x_pair[1 := [[[9, 9], [9, 9]]]]) (l_pair[1 := [- 1, 1]]))
       = Inr [[1, 2, 3, 4, 1 / 4, 1 / 2, 3 / 4, 1], [0, 9, 0, 0, 0, 9, 0, 0]]
   \<and> [[1, 2, 3, 4, 1 / 4, 1 / 2, 3 / 4, 1], [0, 0, 6, 0, 0, 0, 13 / 2, 0]] ! 0
       = [[1, 2, 3, 4, 1 / 4, 1 / 2, 3 / 4, 1], [0, 9, 0, 0, 0, 9, 0, 0 :: real]] ! 0"
proof -
  have h1: "is_shape4 x_pair 2 1 2 2"
    by (simp add: x_pair_def is_shape4_def is_shape3_def is_shape2_def)
  have h2: "is_shape3 [[[9, 9], [9, 9]]] 1 2 2"
    by (simp add: is_shape3_def is_shape2_def)
  have h3: "(0::nat) < 1" "(0::nat) < 2" "(0::nat) < 2" "(1::nat) < 2" "(1::nat) \<noteq> 0"
    by simp_all
  have h4: "snd (foveate r_int x_pair l_pair)
       = Inr [[1, 2, 3, 4, 1 / 4, 1 / 2, 3 / 4, 1], [0, 0, 6, 0, 0, 0, 13 / 2, 0]]"
    by code_simp
  have h5: "snd (foveate r_int (x_pair[1 := [[[9, 9], [9, 9]]]]) (l_pair[1 := [- 1, 1]]))
       = Inr [[1, 2, 3, 4, 1 / 4, 1 / 2, 3 / 4, 1], [0, 9, 0, 0, 0, 9, 0, 0]]"
    by code_simp
  have h6: "0 \<le> scale r_int" by (simp add: r_int_def)
  note t = foveate_row_independent [OF h1 h2 h3 h4 h5 h6]
  from h1 h2 h4 h5 h6 t show ?thesis by (intro conjI)
qed


section \<open>Mismatched shapes\<close>

text \<open>
  Claim C9, as amended. \<open>core_network_forward\<close> fails when the batch sizes of the
  glimpse and of the hidden state differ and neither is 1, and when a row of the
  hidden state is not \<open>hidden_size\<close> wide; \<open>GlimpseNet_forward\<close> fails when the
  batch sizes of the images and of the locations differ and there is not exactly one
  image. (A batch of size 1 is broadcast against the larger one without an error:
  see the counterexample.)
\<close>

theorem batch_mismatch_fails_unless_broadcast:
  assumes "core_network_init isize hsize c" and "0 \<le> scale (retina net)"
  shows "(length g_t \<noteq> length h_t_prev \<and> length g_t \<noteq> 1 \<and> length h_t_prev \<noteq> 1
            \<longrightarrow> isl (core_network_forward c g_t h_t_prev))
         \<and> (\<not> list_all (\<lambda>row. length row = hsize) h_t_prev
            \<longrightarrow> isl (core_network_forward c g_t h_t_prev))
         \<and> (length x_t \<noteq> length l_t \<and> length x_t \<noteq> 1
            \<longrightarrow> isl (snd (GlimpseNet_forward net x_t l_t)))"
proof (intro conjI impI)
  assume m: "length g_t \<noteq> length h_t_prev \<and> length g_t \<noteq> 1 \<and> length h_t_prev \<noteq> 1"
  show "isl (core_network_forward c g_t h_t_prev)"
  proof (cases "core_network_forward c g_t h_t_prev")
    case (Inl e)
    then show ?thesis by simp
  next
    case (Inr h_t)
    then obtain h1 h2 s where a: "Linear (i2h c) g_t = Inr h1"
      and b: "Linear (h2h c) h_t_prev = Inr h2" and s: "add2 h1 h2 = Inr s"
      by (rule core_network_forward_Inr)
    from add2_Inr_lengths [OF s] Linear_length [OF a] Linear_length [OF b] m
    show ?thesis by simp
  qed
next
  assume w: "\<not> list_all (\<lambda>row. length row = hsize) h_t_prev"
  have "in_features (h2h c) = hsize"
    using assms(1) by (simp add: core_network_init_def)
  with w have "Linear (h2h c) h_t_prev = Inl ShapeMismatch"
    by (simp add: Linear_def)
  then show "isl (core_network_forward c g_t h_t_prev)"
    by (simp add: core_network_forward_def split: sum.splits)
next
  assume m: "length x_t \<noteq> length l_t \<and> length x_t \<noteq> 1"
  show "isl (snd (GlimpseNet_forward net x_t l_t))"
  proof (cases "snd (GlimpseNet_forward net x_t l_t)")
    case (Inl e)
    then show ?thesis by simp
  next
    case (Inr g)
    from GlimpseNet_forward_batches [OF this] m show ?thesis by simp
  qed
qed

theorem batch_mismatch_fails_unless_broadcast_witness:
  "core_network_init 1 1 c0 \<and> 0 \<le> scale (retina g0)
   \<and> (length [[1], [4], [5 :: real]] \<noteq> length [[2, 1], [3, 1 :: real]]
      \<and> length [[1], [4], [5 :: real]] \<noteq> 1 \<and> length [[2, 1], [3, 1 :: real]] \<noteq> 1)
   \<and> \<not> list_all (\<lambda>row. length row = 1) [[2, 1], [3, 1 :: real]]
   \<and> isl (core_network_forward c0 [[1], [4], [5]] [[2, 1], [3, 1]])
   \<and> (length x_pair \<noteq> length l_right \<and> length x_pair \<noteq> 1)
   \<and> isl (snd (GlimpseNet_forward g0 x_pair l_right))"
proof -
  have h0: "core_network_init 1 1 c0"
    by (simp add: core_network_init_def c0_def wf_linear_def is_shape2_def)
  have h1: "length [[1], [4], [5 :: real]] \<noteq> length [[2, 1], [3, 1 :: real]]
      \<and> length [[1], [4], [5 :: real]] \<noteq> 1 \<and> length [[2, 1], [3, 1 :: real]] \<noteq> 1"
    by simp
  have h2: "\<not> list_all (\<lambda>row. length row = 1) [[2, 1], [3, 1 :: real]]"
    by simp
  have h3: "length x_pair \<noteq> length l_right \<and> length x_pair \<noteq> 1"
    by (simp add: x_pair_def l_right_def)
  have hs: "0 \<le> scale (retina g0)" by (simp add: g0_def)
  note t = batch_mismatch_fails_unless_broadcast [OF h0 hs, of "[[1], [4], [5]]" "[[2, 1], [3, 1]]"
      x_pair l_right]
  from t h1 have a: "isl (core_network_forward c0 [[1], [4], [5]] [[2, 1], [3, 1]])"
    by blast
  from t h3 have b: "isl (snd (GlimpseNet_forward g0 x_pair l_right))"
    by blast
  from h0 hs h1 h2 h3 a b show ?thesis by blast
qed

text \<open>
  A glimpse batch of one row against a hidden state of two rows, and one image against
  two locations: both calls return a result of two rows.
\<close>

theorem batch_mismatch_counterexample:
  "length [[1 :: real]] \<noteq> length [[2], [3 :: real]]
   \<and> core_network_forward c0 [[1]] [[2], [3]] = Inr [[3], [4]]
   \<and> length x_square \<noteq> length l_two
   \<and> snd (GlimpseNet_forward g0 x_square l_two) = Inr [[10, 10], [11, 12]]"
proof (intro conjI)
  show "length [[1 :: real]] \<noteq> length [[2], [3 :: real]]" by simp
  show "core_network_forward c0 [[1]] [[2], [3]] = Inr [[3], [4]]" by code_simp
  show "length x_square \<noteq> length l_two" by (simp add: x_square_def l_two_def)
  show "snd (GlimpseNet_forward g0 x_square l_two) = Inr [[10, 10], [11, 12]]" by code_simp
qed


section \<open>The glimpse network\<close>




section \<open>The shape of a patch\<close>

lemma long_coord_bounds:
  assumes "- 1 \<le> a" "a \<le> 1"
  shows "0 \<le> long (0.5 * ((a + 1.0) * real n))"
    and "long (0.5 * ((a + 1.0) * real n)) \<le> int n"
proof -
  define v where "v = 0.5 * ((a + 1.0) * real n)"
  have v0: "0 \<le> v" using assms by (simp add: v_def)
  have "(a + 1) * real n \<le> 2 * real n"
    using assms by (intro mult_right_mono) simp_all
  then have vn: "v \<le> real n" by (simp add: v_def)
  have l: "long v = \<lfloor>v\<rfloor>" using v0 by (simp add: long_def)
  show "0 \<le> long (0.5 * ((a + 1.0) * real n))"
    using v0 l unfolding v_def [symmetric] by simp
  show "long (0.5 * ((a + 1.0) * real n)) \<le> int n"
    using vn l unfolding v_def [symmetric] by (simp add: floor_le_iff)
qed

lemma pad_channel_shape:
  "is_shape2 ch H W \<Longrightarrow> is_shape2 (pad_channel p W ch) (H + 2 * p) (W + 2 * p)"
  by (auto simp: is_shape2_def pad_channel_def list_all_iff)

lemma ConstantPad2d_shape:
  assumes "is_shape4 x B C H W" "0 < B" "0 < C" "0 < H"
  shows "is_shape4 (ConstantPad2d p x) B C (H + 2 * p) (W + 2 * p)"
proof -
  have "dimW x = W" using is_shape4_dims(2) [OF assms] .
  then show ?thesis
    using assms(1) by (auto simp: ConstantPad2d_def is_shape4_def is_shape3_def list_all_iff
        pad_channel_shape)
qed

lemma py_slice_from:
  assumes "0 \<le> a"
  shows "py_slice xs a (a + int sz) = take (cut (length xs) a sz) (drop (min (nat a) (length xs)) xs)"
    and "length (py_slice xs a (a + int sz)) = cut (length xs) a sz"
proof -
  have a: "py_bound (length xs) a = min (nat a) (length xs)"
    using assms by (simp add: py_bound_def)
  have b: "py_bound (length xs) (a + int sz) = min (nat a + sz) (length xs)"
    using assms by (simp add: py_bound_def nat_add_distrib)
  show "py_slice xs a (a + int sz) = take (cut (length xs) a sz) (drop (min (nat a) (length xs)) xs)"
    by (simp add: py_slice_def a b cut_def)
  then show "length (py_slice xs a (a + int sz)) = cut (length xs) a sz"
    by (auto simp: cut_def)
qed

lemma slice_at_shape:
  assumes img: "is_shape3 img C Hp Wp" and c: "0 \<le> fst c" "0 \<le> snd c"
  shows "is_shape3 (slice_at sz img c) C (cut Hp (snd c) sz) (cut Wp (fst c) sz)"
proof -
  have ch: "is_shape2 (map (\<lambda>row. py_slice row (fst c) (fst c + int sz))
                             (py_slice ch (snd c) (snd c + int sz)))
              (cut Hp (snd c) sz) (cut Wp (fst c) sz)"
    if "ch \<in> set img" for ch
  proof -
    have c2: "is_shape2 ch Hp Wp" using img that by (simp add: is_shape3_def list_all_iff)
    then have lc: "length ch = Hp" by (simp add: is_shape2_def)
    have rows: "py_slice ch (snd c) (snd c + int sz)
                 = take (cut Hp (snd c) sz) (drop (min (nat (snd c)) Hp) ch)"
      and lrows: "length (py_slice ch (snd c) (snd c + int sz)) = cut Hp (snd c) sz"
      using py_slice_from [OF c(2), of ch sz] lc by simp_all
    have "length (py_slice row (fst c) (fst c + int sz)) = cut Wp (fst c) sz"
      if "row \<in> set (py_slice ch (snd c) (snd c + int sz))" for row
    proof -
      have "row \<in> set ch" using that rows by (auto dest: in_set_takeD in_set_dropD)
      then have "length row = Wp" using c2 by (simp add: is_shape2_def list_all_iff)
      then show ?thesis using py_slice_from(2) [OF c(1), of row sz] by simp
    qed
    then show ?thesis using lrows by (simp add: is_shape2_def list_all_iff)
  qed
  show ?thesis
    using img ch by (simp add: slice_at_def Let_def is_shape3_def list_all_iff)
qed

lemma cut_bounds:
  assumes "0 \<le> a" "a \<le> int H"
  shows "sz - 1 \<le> cut (H + 2 * (sz div 2)) a sz" and "cut (H + 2 * (sz div 2)) a sz \<le> sz"
    and "even sz \<Longrightarrow> cut (H + 2 * (sz div 2)) a sz = sz"
proof -
  have a: "nat a \<le> H" using assms by simp
  have s: "sz \<le> 2 * (sz div 2) + 1" by presburger
  show "sz - 1 \<le> cut (H + 2 * (sz div 2)) a sz"
    unfolding cut_def using a s by arith
  show "cut (H + 2 * (sz div 2)) a sz \<le> sz"
    unfolding cut_def by arith
  assume "even sz"
  then have "2 * (sz div 2) = sz" by simp
  then show "cut (H + 2 * (sz div 2)) a sz = sz"
    unfolding cut_def using a by arith
qed

lemma sequence_all_Inr:
  assumes "\<And>r. r \<in> set rs \<Longrightarrow> \<exists>v. r = Inr v \<and> P v"
  shows "\<exists>vs. sequence rs = Inr vs \<and> length vs = length rs \<and> list_all P vs"
  using assms
proof (induction rs)
  case Nil
  then show ?case by simp
next
  case (Cons r rs)
  then obtain v where v: "r = Inr v" "P v" by auto
  from Cons obtain vs where "sequence rs = Inr vs" "length vs = length rs" "list_all P vs"
    by auto
  with v show ?case by simp
qed

lemma coords_valid:
  assumes l: "is_shape2 l Bl 2" and v: "valid_location l"
  shows "coords (sh, sw) l =
           Inr (map (\<lambda>row. (long (0.5 * ((row ! 0 + 1.0) * real sh)),
                            long (0.5 * ((row ! 1 + 1.0) * real sw)))) l)"
  unfolding coords_def
proof (rule sequence_map_Inr)
  fix row assume "row \<in> set l"
  then have "length row = 2" using l by (simp add: is_shape2_def list_all_iff)
  then obtain a b where "row = [a, b]"
    by (cases row; cases "tl row") auto
  then show "coords_row (sh, sw) row =
     Inr (long (0.5 * ((row ! 0 + 1.0) * real sh)), long (0.5 * ((row ! 1 + 1.0) * real sw)))"
    by simp
qed

text \<open>A location in the range has its pixel coordinates between 0 and the cached extents.\<close>

lemma coords_range:
  assumes l: "is_shape2 l Bl 2" and v: "valid_location l"
  shows "\<exists>cs. coords (sh, sw) l = Inr cs \<and> length cs = Bl
           \<and> (\<forall>i<Bl. 0 \<le> fst (cs ! i) \<and> fst (cs ! i) \<le> int sh
                     \<and> 0 \<le> snd (cs ! i) \<and> snd (cs ! i) \<le> int sw)"
proof -
  define f where "f = (\<lambda>n a. long (0.5 * ((a + 1.0) * real n)))"
  define cs where "cs = map (\<lambda>row. (f sh (row ! 0), f sw (row ! 1))) l"
  have c: "coords (sh, sw) l = Inr cs"
    using coords_valid [OF l v] by (simp add: cs_def f_def)
  have len: "length cs = Bl" using l by (simp add: cs_def is_shape2_def)
  have "0 \<le> fst (cs ! i) \<and> fst (cs ! i) \<le> int sh \<and> 0 \<le> snd (cs ! i) \<and> snd (cs ! i) \<le> int sw"
    if "i < Bl" for i
  proof -
    have il: "i < length l" and lr: "length (l ! i) = 2"
      using l that by (simp_all add: is_shape2_iff)
    have mem: "l ! i ! j \<in> set (l ! i)" if "j < 2" for j
      using that lr by simp
    have row: "l ! i \<in> set l" using il by simp
    have vd: "- 1 \<le> l ! i ! j \<and> l ! i ! j \<le> 1" if "j < 2" for j
      using v row mem [OF that] by (auto simp: valid_location_def list_all_iff)
    have "cs ! i = (f sh (l ! i ! 0), f sw (l ! i ! 1))" using il by (simp add: cs_def)
    then show ?thesis
      using long_coord_bounds [of "l ! i ! 0" sh] long_coord_bounds [of "l ! i ! 1" sw]
        vd [of 0] vd [of 1]
      by (simp add: f_def)
  qed
  with c len show ?thesis by blast
qed

lemma cached_shape_square:
  assumes "is_shape4 x B C H H" "0 < B" "0 < C" "0 < H"
    and "imgShape r = None \<or> imgShape r = Some (H, H)"
  shows "cached_shape r x = (H, H)"
  using assms(5) is_shape4_dims [OF assms(1-4)] by (auto simp: cached_shape_def)

text \<open>
  The patch of one batch element, for a square image and a location in the range: each
  side is the requested one or one less, and the requested one when that is even.
\<close>

lemma extract_patch_element:
  assumes x: "is_shape4 x B C H H" and pos: "0 < B" "0 < C" "0 < H"
    and l: "is_shape2 l Bl 2" and v: "valid_location l"
    and r: "imgShape r = None \<or> imgShape r = Some (H, H)"
    and i: "i < B" "i < Bl"
    and c: "coords_row (cached_shape r x) (l ! i) = Inr c"
  shows "\<exists>h w. is_shape3 (slice_at sz (map (pad_channel (sz div 2) (dimW x)) (x ! i)) c) C h w
           \<and> sz - 1 \<le> h \<and> h \<le> sz \<and> sz - 1 \<le> w \<and> w \<le> sz
           \<and> (even sz \<longrightarrow> h = sz \<and> w = sz)"
proof -
  define Hp where "Hp = H + 2 * (sz div 2)"
  have cs: "cached_shape r x = (H, H)"
    using cached_shape_square [OF x pos r] .
  from coords_range [OF l v, of H H] obtain cs' where
    c': "coords (H, H) l = Inr cs'" and lc: "length cs' = Bl"
    and b: "\<forall>i<Bl. 0 \<le> fst (cs' ! i) \<and> fst (cs' ! i) \<le> int H
                     \<and> 0 \<le> snd (cs' ! i) \<and> snd (cs' ! i) \<le> int H"
    by blast
  have il: "i < length l" using l i(2) by (simp add: is_shape2_def)
  have "coords_row (H, H) (l ! i) = Inr (cs' ! i)"
    using coords_Inr(2) [OF c' il] .
  with c cs have ci: "c = cs' ! i" by simp
  have cb: "0 \<le> fst c" "fst c \<le> int H" "0 \<le> snd c" "snd c \<le> int H"
    using b i(2) ci by simp_all
  have "is_shape4 (ConstantPad2d (sz div 2) x) B C Hp Hp"
    unfolding Hp_def using ConstantPad2d_shape [OF x pos] .
  from is_shape4_nth [OF this i(1)] i(1) x
  have "is_shape3 (map (pad_channel (sz div 2) (dimW x)) (x ! i)) C Hp Hp"
    by (simp add: ConstantPad2d_def is_shape4_def)
  from slice_at_shape [OF this cb(1,3), of sz]
  have "is_shape3 (slice_at sz (map (pad_channel (sz div 2) (dimW x)) (x ! i)) c) C
          (cut Hp (snd c) sz) (cut Hp (fst c) sz)" .
  then show ?thesis
    using cut_bounds [OF cb(1,2), of sz] cut_bounds [OF cb(3,4), of sz]
    unfolding Hp_def by blast
qed

lemma extract_patch_shape:
  assumes x: "is_shape4 x B C H H" and pos: "0 < B" "0 < C" "0 < H"
    and l: "is_shape2 l Bl 2" and v: "valid_location l"
    and r: "imgShape r = None \<or> imgShape r = Some (H, H)"
    and sz: "2 \<le> sz"
    and p: "snd (extract_patch r x l sz) = Inr p"
  shows "\<exists>h w. is_shape4 p B C h w \<and> sz - 1 \<le> h \<and> h \<le> sz \<and> sz - 1 \<le> w \<and> w \<le> sz
           \<and> (even sz \<longrightarrow> h = sz \<and> w = sz)"
proof -
  have lx: "length x = B" using x by (simp add: is_shape4_length)
  have lp: "length p = B" using extract_patch_Inr(1) [OF p] lx by simp
  have ll: "length l = Bl" using l by (simp add: is_shape2_def)
  have el: "\<exists>h w. is_shape3 (p ! i) C h w \<and> sz - 1 \<le> h \<and> h \<le> sz \<and> sz - 1 \<le> w \<and> w \<le> sz
           \<and> (even sz \<longrightarrow> h = sz \<and> w = sz)" if "i < B" for i
  proof -
    from extract_patch_Inr(3) [OF p, of i] that lx obtain c where
      il: "i < length l" and c: "coords_row (cached_shape r x) (l ! i) = Inr c"
      and pi: "p ! i = slice_at sz (map (pad_channel (sz div 2) (dimW x)) (x ! i)) c"
      by auto
    from extract_patch_element [OF x pos l v r that _ c, of sz] il ll pi
    show ?thesis by simp
  qed
  from el [OF pos(1)] obtain h w where
    p0: "is_shape3 (p ! 0) C h w" and hw: "sz - 1 \<le> h" "h \<le> sz" "sz - 1 \<le> w" "w \<le> sz"
      "even sz \<longrightarrow> h = sz \<and> w = sz"
    by blast
  have hpos: "0 < h" using hw(1) sz by simp
  have s0: "shape3 (p ! 0) = (C, h, w)"
    using is_shape3_shape3 [OF p0 pos(2) hpos] .
  have "is_shape3 (p ! i) C h w" if "i < B" for i
  proof -
    from el [OF that] obtain h' w' where
      pi: "is_shape3 (p ! i) C h' w'" and h': "sz - 1 \<le> h'"
      by blast
    have "0 < h'" using h' sz by simp
    from is_shape3_shape3 [OF pi pos(2) this] extract_patch_Inr(4) [OF p, of i] that lx s0
    have "h' = h" "w' = w" by simp_all
    with pi show ?thesis by simp
  qed
  then have "is_shape4 p B C h w"
    using lp by (simp add: is_shape4_def list_all_length)
  with hw show ?thesis by blast
qed

text \<open>For an even side the patches of all batch elements are whole, and the call succeeds.\<close>

lemma extract_patch_inside:
  assumes x: "is_shape4 x B C H H" and pos: "0 < B" "0 < C" "0 < H"
    and l: "is_shape2 l Bl 2" and le: "B \<le> Bl" and v: "valid_location l"
    and r: "imgShape r = None \<or> imgShape r = Some (H, H)"
    and sz: "0 < sz" and ev: "even sz"
  shows "\<exists>p. snd (extract_patch r x l sz) = Inr p \<and> is_shape4 p B C sz sz"
proof -
  define xp where "xp = ConstantPad2d (sz div 2) x"
  have lx: "length x = B" using x by (simp add: is_shape4_length)
  from coords_range [OF l v, of H H] obtain cs where
    c: "coords (cached_shape r x) l = Inr cs" and lc: "length cs = Bl"
    unfolding cached_shape_square [OF x pos r] by blast
  have lxp: "length xp = B" using lx by (simp add: xp_def ConstantPad2d_def)
  define qs where "qs = map (\<lambda>i. slice_at sz (xp ! i) (cs ! i)) [0..<B]"
  have pl: "patch_list sz xp cs = Inr qs"
    unfolding patch_list_def qs_def lxp
    by (rule sequence_map_Inr) (use lc le in auto)
  have sh: "is_shape3 (qs ! i) C sz sz" if "i < B" for i
  proof -
    have il: "i < length l" "i < Bl" using that le l by (simp_all add: is_shape2_def)
    have ci: "coords_row (cached_shape r x) (l ! i) = Inr (cs ! i)"
      using coords_Inr(2) [OF c il(1)] .
    have "xp ! i = map (pad_channel (sz div 2) (dimW x)) (x ! i)"
      using that lx by (simp add: xp_def ConstantPad2d_def)
    with extract_patch_element [OF x pos l v r that il(2) ci, of sz] ev that
    show ?thesis by (auto simp: qs_def)
  qed
  have lq: "length qs = B" by (simp add: qs_def)
  have s3: "shape3 q = (C, sz, sz)" if "q \<in> set qs" for q
  proof -
    from that obtain i where "i < B" "q = qs ! i" using lq by (auto simp: in_set_conv_nth)
    with sh is_shape3_shape3 [of q C sz sz] pos(2) sz show ?thesis by simp
  qed
  have "cat0 qs = Inr qs"
    using lq pos(1) s3 by (cases qs) (auto simp: cat0_def list_all_iff)
  then have "snd (extract_patch r x l sz) = Inr qs"
    using c pl by (simp add: extract_patch_def xp_def)
  moreover have "is_shape4 qs B C sz sz"
    using lq sh by (simp add: is_shape4_def list_all_length)
  ultimately show ?thesis by blast
qed


section \<open>The patches of the loop\<close>

lemma patch_side_funpow:
  "((\<lambda>s. nat (long (scale r * real s))) ^^ j) (patch_size r) = patch_side r j"
  by (induction j) simp_all

lemma extract_loop_patch:
  assumes "snd (extract_loop r x l (num_patches r) (patch_size r)) = Inr ps"
  shows "length ps = num_patches r"
    and "j < num_patches r \<Longrightarrow> snd (extract_patch r x l (patch_side r j)) = Inr (ps ! j)"
  using extract_loop_Inr [OF assms] by (simp_all add: patch_side_funpow)



lemma extract_loop_Suc:
  "snd (extract_patch r x l sz) = Inr p \<Longrightarrow>
   snd (extract_loop (fst (extract_patch r x l sz)) x l n (nat (long (scale r * real sz)))) = Inr qs \<Longrightarrow>
   snd (extract_loop r x l (Suc n) sz) = Inr (p # qs)"
  by (cases "extract_patch r x l sz";
      cases "extract_loop (fst (extract_patch r x l sz)) x l n (nat (long (scale r * real sz)))")
     auto

text \<open>When every side is even the loop returns.\<close>

lemma extract_loop_returns:
  assumes x: "is_shape4 x B C H H" and pos: "0 < B" "0 < C" "0 < H"
    and l: "is_shape2 l Bl 2" and le: "B \<le> Bl" and v: "valid_location l"
  shows "imgShape r = None \<or> imgShape r = Some (H, H) \<Longrightarrow>
         (\<And>j. j < n \<Longrightarrow> even (((\<lambda>s. nat (long (scale r * real s))) ^^ j) sz)
                        \<and> 0 < ((\<lambda>s. nat (long (scale r * real s))) ^^ j) sz) \<Longrightarrow>
         \<exists>ps. snd (extract_loop r x l n sz) = Inr ps"
proof (induction n arbitrary: r sz)
  case 0
  then show ?case by simp
next
  case (Suc n)
  define r1 where "r1 = fst (extract_patch r x l sz)"
  define f where "f = (\<lambda>s. nat (long (scale r * real s)))"
  have s0: "even sz" "0 < sz" using Suc.prems(2) [of 0] by simp_all
  from extract_patch_inside [OF x pos l le v Suc.prems(1) s0(2,1)] obtain p where
    p: "snd (extract_patch r x l sz) = Inr p"
    by blast
  have cs: "cached_shape r x = (H, H)"
    using cached_shape_square [OF x pos Suc.prems(1)] .
  have r1: "imgShape r1 = None \<or> imgShape r1 = Some (H, H)" "scale r1 = scale r"
    by (simp_all add: r1_def extract_patch_fst cs)
  have "even (((\<lambda>s. nat (long (scale r1 * real s))) ^^ j) (f sz))
        \<and> 0 < ((\<lambda>s. nat (long (scale r1 * real s))) ^^ j) (f sz)" if "j < n" for j
  proof -
    have "(f ^^ Suc j) sz = (f ^^ j) (f sz)" by (simp add: funpow_swap1)
    moreover have "even ((f ^^ Suc j) sz) \<and> 0 < (f ^^ Suc j) sz"
      using Suc.prems(2) [of "Suc j"] that unfolding f_def by blast
    ultimately show ?thesis unfolding r1(2) f_def by simp
  qed
  from Suc.IH [OF r1(1) this] obtain qs where
    "snd (extract_loop r1 x l n (f sz)) = Inr qs"
    by blast
  then have "snd (extract_loop r x l (Suc n) sz) = Inr (p # qs)"
    using extract_loop_Suc [OF p] by (simp add: r1_def f_def)
  then show ?case by blast
qed

lemma extract_loop_even:
  assumes x: "is_shape4 x B C H H" and pos: "0 < B" "0 < C" "0 < H"
    and l: "is_shape2 l Bl 2" and le: "B \<le> Bl" and v: "valid_location l"
    and r: "imgShape r = None \<or> imgShape r = Some (H, H)"
    and ev: "\<And>j. j < num_patches r \<Longrightarrow> even (patch_side r j) \<and> 0 < patch_side r j"
  shows "\<exists>ps. snd (extract_loop r x l (num_patches r) (patch_size r)) = Inr ps"
  by (rule extract_loop_returns [OF x pos l le v r]) (simp add: patch_side_funpow ev)

text \<open>The patch of every scale, for a loop that has returned.\<close>

lemma extract_loop_shape:
  assumes x: "is_shape4 x B C H H" and pos: "0 < B" "0 < C" "0 < H"
    and l: "is_shape2 l Bl 2" and v: "valid_location l"
    and r: "imgShape r = None \<or> imgShape r = Some (H, H)"
    and ps: "snd (extract_loop r x l (num_patches r) (patch_size r)) = Inr ps"
    and j: "j < num_patches r" and s: "2 \<le> patch_side r j"
  shows "\<exists>h w. is_shape4 (ps ! j) B C h w
           \<and> patch_side r j - 1 \<le> h \<and> h \<le> patch_side r j
           \<and> patch_side r j - 1 \<le> w \<and> w \<le> patch_side r j
           \<and> (even (patch_side r j) \<longrightarrow> h = patch_side r j \<and> w = patch_side r j)"
  using extract_patch_shape [OF x pos l v r s extract_loop_patch(2) [OF ps j]] .

section \<open>Pooling a patch to the base size\<close>

lemma pooled_side_kernel:
  fixes p s w :: nat
  assumes p: "0 < p" "even p" and w: "s - 1 \<le> w" "w \<le> s" "even s \<longrightarrow> w = s"
  shows "w div p = s div p"
proof (cases "w = s")
  case True
  then show ?thesis by simp
next
  case False
  then have odd: "odd s" and ws: "w = s - 1" using w by auto
  have "odd (s mod p)" using odd p(2) dvd_mod_iff [of 2 p s] by simp
  then have m: "1 \<le> s mod p" by (cases "s mod p") auto
  have "s = p * (s div p) + s mod p" by simp
  then have e: "s - 1 = p * (s div p) + (s mod p - 1)"
    using m by arith
  have "s mod p - 1 < p" using p(1) by (simp add: less_imp_diff_less)
  then have "(p * (s div p) + (s mod p - 1)) div p = s div p"
    using p(1) by simp
  then have "(s - 1) div p = s div p" by (simp only: e)
  then show ?thesis using ws by simp
qed

lemma pooled_side:
  fixes p s h :: nat
  assumes p: "0 < p" "even p" and m: "s mod p < s div p"
    and h: "s - 1 \<le> h" "h \<le> s" "even s \<longrightarrow> h = s"
  shows "h div (s div p) = p" and "s div p \<le> h"
proof -
  define q where "q = s div p"
  have q: "0 < q" using m by (simp add: q_def)
  obtain m' where h': "h = q * p + m'" and m': "m' < q"
  proof (cases "h = s")
    case True
    have "h = q * p + s mod p" using True by (simp add: q_def)
    moreover have "s mod p < q" using m by (simp add: q_def)
    ultimately show ?thesis using that [of "s mod p"] by blast
  next
    case False
    then have odd: "odd s" and hs: "h = s - 1" using h by auto
    have "odd (s mod p)" using odd p(2) dvd_mod_iff [of 2 p s] by simp
    then have "1 \<le> s mod p" by (cases "s mod p") auto
    moreover have "s = q * p + s mod p" by (simp add: q_def)
    ultimately have "s - 1 = q * p + (s mod p - 1)" by arith
    moreover have "s mod p - 1 < q" using m by (simp add: q_def less_imp_diff_less)
    ultimately show ?thesis using that [of "s mod p - 1"] hs by blast
  qed
  show "h div (s div p) = p"
    unfolding q_def [symmetric] h' using m' q by simp
  show "s div p \<le> h"
    unfolding q_def [symmetric] h' using p(1) by (cases p) simp_all
qed

lemma pool_channel_shape:
  assumes "is_shape2 ch h w" "0 < k" "k \<le> h"
  shows "is_shape2 (pool_channel k ch) (h div k) (w div k)"
proof -
  have len: "length ch = h" using assms(1) by (simp add: is_shape2_def)
  then have "ch \<noteq> []" using assms(2,3) by auto
  then have "width ch = w"
    using assms(1) by (cases ch) (auto simp: width_def is_shape2_def)
  then show ?thesis
    using len by (simp add: pool_channel_def is_shape2_def list_all_iff)
qed

lemma resize_one_shape:
  assumes q: "is_shape4 q B C h w" and pos: "0 < B" "0 < C"
    and p: "0 < p" "even p" and m: "s mod p < s div p"
    and h: "s - 1 \<le> h" "h \<le> s" and w: "s - 1 \<le> w" "w \<le> s"
    and ev: "even s \<longrightarrow> h = s \<and> w = s"
  shows "\<exists>q'. resize_one p q = Inr q' \<and> is_shape4 q' B C p p"
proof -
  define k where "k = s div p"
  have k: "0 < k" using m by (simp add: k_def)
  have kh: "h div k = p" "k \<le> h"
    using pooled_side [OF p m h] ev by (simp_all add: k_def)
  have kw: "w div k = p" "k \<le> w"
    using pooled_side [OF p m w] ev by (simp_all add: k_def)
  have hpos: "0 < h" using k kh(2) by simp
  have d: "dimH q = h" "dimW q = w"
    using is_shape4_dims [OF q pos hpos] by simp_all
  have kd: "w div p = k"
    using pooled_side_kernel [OF p w] ev by (simp add: k_def)
  have r: "resize_one p q = Inr (map (map (pool_channel k)) q)"
    using p(1) k kh(2) kw(2) by (simp add: resize_one_def d kd avg_pool2d_def)
  have "is_shape2 (pool_channel k ch) p p" if "is_shape2 ch h w" for ch
    using pool_channel_shape [OF that k kh(2)] kh(1) kw(1) by simp
  then have "is_shape4 (map (map (pool_channel k)) q) B C p p"
    using q by (auto simp: is_shape4_def is_shape3_def list_all_iff)
  with r show ?thesis by blast
qed

text \<open>
  The resizing step after the loop, for an even base size and sides \<open>s\<close> with
  \<open>s mod patch_size < s div patch_size\<close>: every patch, whole or cut short by one, is
  brought to the base size.
\<close>

lemma resize_after_extract_loop:
  assumes x: "is_shape4 x B C H H" and pos: "0 < B" "0 < C" "0 < H"
    and l: "is_shape2 l B 2" and v: "valid_location l"
    and r: "imgShape r = None \<or> imgShape r = Some (H, H)"
    and psz: "0 < patch_size r" "even (patch_size r)"
    and side: "\<And>i. 0 < i \<Longrightarrow> i < num_patches r \<Longrightarrow>
                 patch_side r i mod patch_size r < patch_side r i div patch_size r"
    and ps: "snd (extract_loop r x l (num_patches r) (patch_size r)) = Inr ps"
  shows "\<exists>rs. resize (patch_size r) ps = Inr rs \<and> length rs = num_patches r
           \<and> (\<forall>j<num_patches r. is_shape4 (rs ! j) B C (patch_size r) (patch_size r))"
proof (cases ps)
  case Nil
  then show ?thesis using extract_loop_patch(1) [OF ps] by (simp add: resize_def)
next
  case (Cons p rest)
  define p0 where "p0 = patch_size r"
  have len: "length ps = num_patches r" using extract_loop_patch(1) [OF ps] .
  have p2: "2 \<le> p0" using psz by (auto simp: p0_def elim: evenE)
  have "\<exists>qs. sequence (map (resize_one p0) rest) = Inr qs
            \<and> length qs = length (map (resize_one p0) rest)
            \<and> list_all (\<lambda>q. is_shape4 q B C p0 p0) qs"
  proof (rule sequence_all_Inr)
    fix q assume "q \<in> set (map (resize_one p0) rest)"
    then obtain j where j: "j < length rest" and q: "q = resize_one p0 (rest ! j)"
      by (auto simp: in_set_conv_nth)
    have j': "0 < Suc j" "Suc j < num_patches r" using j len Cons by simp_all
    define s where "s = patch_side r (Suc j)"
    have m: "s mod p0 < s div p0" using side [OF j'] by (simp add: s_def p0_def)
    then have "0 < s div p0" by simp
    then have "p0 \<le> s" using psz(1) by (simp add: p0_def div_greater_zero_iff)
    then have s2: "2 \<le> patch_side r (Suc j)" using p2 by (simp add: s_def)
    from extract_loop_shape [OF x pos l v r ps j'(2) s2] obtain h w where
      sh: "is_shape4 (ps ! Suc j) B C h w"
      and hw: "s - 1 \<le> h" "h \<le> s" "s - 1 \<le> w" "w \<le> s" "even s \<longrightarrow> h = s \<and> w = s"
      unfolding s_def by blast
    have "is_shape4 (rest ! j) B C h w" using sh Cons by simp
    from resize_one_shape [OF this pos(1,2) _ _ m hw] psz q
    show "\<exists>v. q = Inr v \<and> is_shape4 v B C p0 p0" by (simp add: p0_def)
  qed
  then obtain qs where qs: "sequence (map (resize_one p0) rest) = Inr qs"
    and lq: "length qs = length rest" and sq: "list_all (\<lambda>q. is_shape4 q B C p0 p0) qs"
    by auto
  have rr: "resize p0 ps = Inr (p # qs)" using Cons qs by (simp add: resize_def)
  have n0: "0 < num_patches r" using len Cons by simp
  have "patch_side r 0 = p0" by (simp add: p0_def)
  with extract_loop_shape [OF x pos l v r ps n0] p2 psz(2)
  have "is_shape4 (ps ! 0) B C p0 p0" by (auto simp: p0_def)
  then have p0s: "is_shape4 p B C p0 p0" using Cons by simp
  have "is_shape4 ((p # qs) ! j) B C p0 p0" if "j < num_patches r" for j
    using that p0s sq lq Cons len by (cases j) (auto simp: list_all_length)
  with rr lq Cons len show ?thesis unfolding p0_def by auto
qed

lemma length_concat_uniform:
  "(\<And>y. y \<in> set ys \<Longrightarrow> length y = m) \<Longrightarrow> length (concat ys) = length ys * m"
  by (induction ys) simp_all

lemma cat1_same_shape:
  assumes rs: "\<And>j. j < length rs \<Longrightarrow> is_shape4 (rs ! j) B C h h"
    and n: "rs \<noteq> []" and pos: "0 < B" "0 < C" "0 < h"
  shows "cat1 rs = Inr (map (\<lambda>b. concat (map (\<lambda>q. q ! b) rs)) [0..<B])"
proof -
  obtain p qs where pq: "rs = p # qs" using n by (cases rs) auto
  have each: "length q = B \<and> dimH q = h \<and> dimW q = h" if "q \<in> set rs" for q
  proof -
    from that obtain j where "j < length rs" "q = rs ! j" by (auto simp: in_set_conv_nth)
    with rs have s: "is_shape4 q B C h h" by simp
    show ?thesis
      using is_shape4_length [OF s] is_shape4_dims [OF s pos] by simp
  qed
  have "list_all (\<lambda>q. length q = length p \<and> dimH q = dimH p \<and> dimW q = dimW p) qs"
    using each pq by (simp add: list_all_iff)
  moreover have "length p = B" using each pq by simp
  ultimately show ?thesis using pq by (simp add: cat1_def)
qed

lemma flat_row_length:
  assumes rs: "\<And>j. j < length rs \<Longrightarrow> is_shape4 (rs ! j) B C h h" and b: "b < B"
  shows "length (concat (concat (concat (map (\<lambda>q. q ! b) rs)))) = length rs * C * h * h"
proof -
  have q: "is_shape3 (q ! b) C h h" if "q \<in> set rs" for q
  proof -
    from that obtain j where "j < length rs" "q = rs ! j" by (auto simp: in_set_conv_nth)
    with rs b show ?thesis using is_shape4_nth by blast
  qed
  define chans where "chans = concat (map (\<lambda>q. q ! b) rs)"
  have "length chans = length (map (\<lambda>q. q ! b) rs) * C"
    unfolding chans_def
    by (rule length_concat_uniform) (use q in \<open>auto simp: is_shape3_def\<close>)
  then have lc: "length chans = length rs * C" by simp
  have ch: "is_shape2 c h h" if "c \<in> set chans" for c
    using that q unfolding chans_def by (auto simp: is_shape3_def list_all_iff)
  have "length (concat chans) = length chans * h"
    by (rule length_concat_uniform) (use ch in \<open>auto simp: is_shape2_def\<close>)
  moreover have "length (concat (concat chans)) = length (concat chans) * h"
    by (rule length_concat_uniform) (use ch in \<open>auto simp: is_shape2_def list_all_iff\<close>)
  ultimately show ?thesis using lc by (simp add: chans_def)
qed

text \<open>
  On a square image, with an even base size and even sides that the pooling divides
  as above, the glimpse has the shape the documentation of \<open>foveate\<close> gives.
\<close>

lemma foveate_shape_square:
  assumes x: "is_shape4 x B C H H" and pos: "0 < B" "0 < C" "0 < H"
    and l: "is_shape2 l B 2" and v: "valid_location l"
    and r: "imgShape r = None \<or> imgShape r = Some (H, H)"
    and n: "0 < num_patches r"
    and psz: "0 < patch_size r" "even (patch_size r)"
    and ev: "\<And>i. i < num_patches r \<Longrightarrow> even (patch_side r i)"
    and side: "\<And>i. 0 < i \<Longrightarrow> i < num_patches r \<Longrightarrow>
                 patch_side r i mod patch_size r < patch_side r i div patch_size r"
  shows "\<exists>out. snd (foveate r x l) = Inr out
           \<and> is_shape2 out B (num_patches r * C * patch_size r * patch_size r)"
proof -
  have "even (patch_side r j) \<and> 0 < patch_side r j" if "j < num_patches r" for j
  proof (cases j)
    case 0
    then show ?thesis using psz by simp
  next
    case (Suc j')
    then have "0 < patch_side r j div patch_size r" using side [of j] that by simp
    then have "0 < patch_side r j" by (cases "patch_side r j") simp_all
    then show ?thesis using ev [OF that] by simp
  qed
  from extract_loop_even [OF x pos l order_refl v r this] obtain ps where
    e: "snd (extract_loop r x l (num_patches r) (patch_size r)) = Inr ps"
    by blast
  from resize_after_extract_loop [OF x pos l v r psz side e] obtain rs where
    s: "resize (patch_size r) ps = Inr rs" and len: "length rs = num_patches r"
    and sh: "\<And>j. j < length rs \<Longrightarrow> is_shape4 (rs ! j) B C (patch_size r) (patch_size r)"
    by auto
  have ne: "rs \<noteq> []" using len n by auto
  define t where "t = map (\<lambda>b. concat (map (\<lambda>q. q ! b) rs)) [0..<B]"
  define m where "m = num_patches r * C * patch_size r * patch_size r"
  have c: "cat1 rs = Inr t"
    unfolding t_def using cat1_same_shape [OF sh ne pos(1,2) psz(1)] .
  have row: "length (concat (concat (t ! b))) = m" if "b < B" for b
    using flat_row_length [OF sh that] that by (simp add: t_def len m_def)
  have mpos: "0 < m" using n pos(2) psz(1) by (simp add: m_def)
  have lt: "length t = B" by (simp add: t_def)
  have "concat (concat (t ! 0)) \<noteq> []" using row [OF pos(1)] mpos by auto
  then have "concat (concat (concat t)) \<noteq> []"
    using lt pos(1) by (cases t) auto
  then have vf: "view_flat t = Inr (map (\<lambda>img. concat (concat img)) t)"
    by (simp add: view_flat_def)
  have f: "snd (foveate r x l) = Inr (map (\<lambda>img. concat (concat img)) t)"
    using e s c vf by (cases "extract_loop r x l (num_patches r) (patch_size r)") (simp add: foveate_def)
  have "is_shape2 (map (\<lambda>img. concat (concat img)) t) B m"
    using row lt by (simp add: is_shape2_def list_all_length)
  with f show ?thesis unfolding m_def by blast
qed

text \<open>The same for a scale factor that is a natural number, with an even base size.\<close>

lemma patch_side_nat_scale: "scale r = real k \<Longrightarrow> patch_side r i = patch_size r * k ^ i"
  by (induction i) (simp_all add: nat_long_mult del: of_nat_mult)

lemma foveate_shape_integer_scale:
  assumes x: "is_shape4 x B C H H" and pos: "0 < B" "0 < C" "0 < H"
    and l: "is_shape2 l B 2" and v: "valid_location l"
    and r: "imgShape r = None \<or> imgShape r = Some (H, H)"
    and sc: "scale r = real k" and k: "0 < k" and n: "0 < num_patches r"
    and psz: "0 < patch_size r" "even (patch_size r)"
  shows "\<exists>out. snd (foveate r x l) = Inr out
           \<and> is_shape2 out B (num_patches r * C * patch_size r * patch_size r)"
proof (rule foveate_shape_square [OF x pos l v r n psz])
  fix i
  show "even (patch_side r i)"
    using psz(2) by (simp add: patch_side_nat_scale [OF sc])
  show "patch_side r i mod patch_size r < patch_side r i div patch_size r"
    using psz(1) k by (simp add: patch_side_nat_scale [OF sc])
qed


section \<open>The slice and the padded image\<close>

text \<open>
  Claim C2, as amended. For a square image, a retina whose cached image shape is unset
  or is the shape of this image, a location batch with every coordinate between -1 and
  1, and a patch whose side is even: \<open>extract_patch\<close> pads the image by \<open>size div 2\<close>
  on every side, half the side of the patch it is extracting, and the slice
  \<open>[from, from + size)\<close> of every batch element lies inside the padded image in both
  directions, so that the call returns a patch of the full shape \<open>(B, C, size, size)\<close>.
\<close>

theorem slice_inside_padded_square:
  assumes x: "is_shape4 x B C H H" and pos: "0 < B" "0 < C" "0 < H"
    and l: "is_shape2 l B 2" and v: "valid_location l"
    and r: "imgShape r = None \<or> imgShape r = Some (H, H)"
    and sz: "0 < sz" and ev: "even sz"
  shows "\<exists>cs p. coords (cached_shape r x) l = Inr cs
           \<and> is_shape4 (ConstantPad2d (sz div 2) x) B C (H + 2 * (sz div 2)) (H + 2 * (sz div 2))
           \<and> (\<forall>i<B. 0 \<le> fst (cs ! i) \<and> fst (cs ! i) + int sz \<le> int (H + 2 * (sz div 2))
                     \<and> 0 \<le> snd (cs ! i) \<and> snd (cs ! i) + int sz \<le> int (H + 2 * (sz div 2)))
           \<and> snd (extract_patch r x l sz) = Inr p \<and> is_shape4 p B C sz sz"
proof -
  have cs: "cached_shape r x = (H, H)"
    using cached_shape_square [OF x pos r] .
  have e: "2 * (sz div 2) = sz" using ev by simp
  from coords_range [OF l v, of H H] obtain cs where
    c: "coords (H, H) l = Inr cs"
    and b: "\<forall>i<B. 0 \<le> fst (cs ! i) \<and> fst (cs ! i) \<le> int H
                     \<and> 0 \<le> snd (cs ! i) \<and> snd (cs ! i) \<le> int H"
    by blast
  have b': "\<forall>i<B. 0 \<le> fst (cs ! i) \<and> fst (cs ! i) + int sz \<le> int (H + 2 * (sz div 2))
                     \<and> 0 \<le> snd (cs ! i) \<and> snd (cs ! i) + int sz \<le> int (H + 2 * (sz div 2))"
    using b unfolding e by simp
  from extract_patch_inside [OF x pos l order_refl v r sz ev] obtain p where
    p: "snd (extract_patch r x l sz) = Inr p" "is_shape4 p B C sz sz"
    by blast
  show ?thesis
    using c b' p ConstantPad2d_shape [OF x pos, of "sz div 2"] unfolding cs by blast
qed

theorem slice_inside_padded_square_witness:
  "is_shape4 x_square 1 1 2 2 \<and> is_shape2 l_corner 1 2 \<and> valid_location l_corner
   \<and> (imgShape r_int = None \<or> imgShape r_int = Some (2, 2))
   \<and> even (2 :: nat)
   \<and> snd (extract_patch r_int x_square l_corner 2) = Inr [[[[4, 0], [0, 0]]]]
   \<and> is_shape4 [[[[4, 0], [0, 0]]]] 1 1 2 2"
proof -
  have h1: "is_shape4 x_square 1 1 2 2"
    by (simp add: x_square_def is_shape4_def is_shape3_def is_shape2_def)
  have h2: "is_shape2 l_corner 1 2" by (simp add: l_corner_def is_shape2_def)
  have h3: "valid_location l_corner" by (simp add: l_corner_def valid_location_def)
  have h4: "imgShape r_int = None \<or> imgShape r_int = Some (2, 2)" by (simp add: r_int_def)
  have h5: "even (2 :: nat)" by simp
  have h6: "(0 :: nat) < 1" "(0 :: nat) < 1" "(0 :: nat) < 2" by simp_all
  have h7: "(0 :: nat) < 2" by simp
  have e: "snd (extract_patch r_int x_square l_corner 2) = Inr [[[[4, 0], [0, 0]]]]"
    by code_simp
  from slice_inside_padded_square [OF h1 h6 h2 h3 h4 h7 h5] e
  have "is_shape4 [[[[4, 0], [0, 0]]]] 1 1 2 2" by auto
  with h1 h2 h3 h4 h5 e show ?thesis by blast
qed

text \<open>
  Four ways in which the claim as first stated fails. The image is padded by half the
  side of the patch at hand: 1 for the first patch of side 2, less than half the side
  4 of the largest. For the odd side 3 the padding is 1 on each side and the slice at
  the coordinate 1 ends at 5 in a padded image of extent 4. For an image of height 3
  and width 2 the first coordinate is scaled by the height and used along the width:
  the slice ends at 5 in a padded width of 4. For a retina that has cached the shape
  (3, 3) of an earlier image, the coordinate 1 on an image of side 2 gives the offset
  3, and the slice of the even side 2 ends at 5 in a padded image of extent 4.
\<close>

theorem slice_inside_padded_counterexample:
  "map_sum id (map dimH)
      (snd (extract_loop r_int x_square l_centre (num_patches r_int) (patch_size r_int)))
     = Inr [2, 4]
   \<and> dimH (ConstantPad2d (patch_size r_int div 2) x_square) = dimH x_square + 2 * 1
   \<and> \<not> (4 div 2 \<le> (1 :: nat))
   \<and> coords (cached_shape r_odd x_square) l_corner = Inr [(2, 2)]
   \<and> dimW (ConstantPad2d (3 div 2) x_square) = 4
   \<and> \<not> ((2 :: int) + int 3 \<le> int 4)
   \<and> snd (extract_patch r_odd x_square l_corner 3) = Inr [[[[4, 0], [0, 0]]]]
   \<and> coords (cached_shape r_one x_tall) l_corner = Inr [(3, 2)]
   \<and> dimW (ConstantPad2d (2 div 2) x_tall) = 4
   \<and> \<not> ((3 :: int) + int 2 \<le> int 4)
   \<and> snd (extract_patch r_one x_tall l_corner 2) = Inr [[[[0], [0]]]]
   \<and> coords (cached_shape r_stale x_square) l_corner = Inr [(3, 3)]
   \<and> dimW (ConstantPad2d (2 div 2) x_square) = 4
   \<and> snd (extract_patch r_stale x_square l_corner 2) = Inr [[[[0]]]]"
proof (intro conjI)
  show "map_sum id (map dimH)
      (snd (extract_loop r_int x_square l_centre (num_patches r_int) (patch_size r_int)))
     = Inr [2, 4]" by code_simp
  show "dimH (ConstantPad2d (patch_size r_int div 2) x_square) = dimH x_square + 2 * 1"
    by code_simp
  show "\<not> (4 div 2 \<le> (1 :: nat))" by simp
  show "coords (cached_shape r_odd x_square) l_corner = Inr [(2, 2)]" by code_simp
  show "dimW (ConstantPad2d (3 div 2) x_square) = 4" by code_simp
  show "\<not> ((2 :: int) + int 3 \<le> int 4)" by simp
  show "snd (extract_patch r_odd x_square l_corner 3) = Inr [[[[4, 0], [0, 0]]]]" by code_simp
  show "coords (cached_shape r_one x_tall) l_corner = Inr [(3, 2)]" by code_simp
  show "dimW (ConstantPad2d (2 div 2) x_tall) = 4" by code_simp
  show "\<not> ((3 :: int) + int 2 \<le> int 4)" by simp
  show "snd (extract_patch r_one x_tall l_corner 2) = Inr [[[[0], [0]]]]" by code_simp
  show "coords (cached_shape r_stale x_square) l_corner = Inr [(3, 3)]" by code_simp
  show "dimW (ConstantPad2d (2 div 2) x_square) = 4" by code_simp
  show "snd (extract_patch r_stale x_square l_corner 2) = Inr [[[[0]]]]" by code_simp
qed


section \<open>The patches after resizing\<close>





section \<open>The sides of the patches\<close>





section \<open>The shape of the glimpse\<close>

text \<open>
  Claim C1. The glimpse is to have the shape
  \<open>(batch, num_patches * channels * patch_size * patch_size)\<close> for every image batch
  and every location in the range, the corners included; \<open>foveate_shape_square\<close>
  shows it for square images, an even patch size and even sizes that the pooling
  brings to the patch size, and \<open>foveate_shape_integer_scale\<close> for every scale factor
  that is a natural number. The code does not achieve it in general: for an image
  of height 3 and width 2 and the location \<open>(1, 1)\<close>, \<open>foveate\<close> with one patch of
  side 2 returns a row of 2 entries where 4 are due, and for a square image and the
  odd patch size 3 it returns 4 entries at the same location where 9 are due.
\<close>

theorem foveate_shape_nonsquare:
  "is_shape4 x_tall 1 1 3 2 \<and> valid_location l_corner
   \<and> snd (foveate r_one x_tall l_corner) = Inr [[0, 0]]
   \<and> \<not> is_shape2 [[0, 0]] 1 (num_patches r_one * 1 * patch_size r_one * patch_size r_one)
   \<and> snd (foveate r_odd x_square l_corner) = Inr [[4, 0, 0, 0]]
   \<and> \<not> is_shape2 [[4, 0, 0, 0]] 1 (num_patches r_odd * 1 * patch_size r_odd * patch_size r_odd)"
proof (intro conjI)
  show "is_shape4 x_tall 1 1 3 2"
    by (simp add: x_tall_def is_shape4_def is_shape3_def is_shape2_def)
  show "valid_location l_corner" by (simp add: l_corner_def valid_location_def)
  show "snd (foveate r_one x_tall l_corner) = Inr [[0, 0]]" by code_simp
  show "\<not> is_shape2 [[0, 0]] 1 (num_patches r_one * 1 * patch_size r_one * patch_size r_one)"
    by (simp add: is_shape2_def r_one_def)
  show "snd (foveate r_odd x_square l_corner) = Inr [[4, 0, 0, 0]]" by code_simp
  show "\<not> is_shape2 [[4, 0, 0, 0]] 1 (num_patches r_odd * 1 * patch_size r_odd * patch_size r_odd)"
    by (simp add: is_shape2_def r_odd_def)
qed

end
